theory Spec2Isabelle
  imports Complex_Main
begin

section \<open>The fee distributor: tables, network and constants\<close>

text \<open>
  The development follows \<^verbatim>\<open>ScheduledTasksService\<close> of
  \<^verbatim>\<open>src/scheduled-tasks.service.ts\<close> (the version with the retry loop):
  \<^verbatim>\<open>handleCron\<close>, \<^verbatim>\<open>processTransactions\<close> and \<^verbatim>\<open>sendSolanaTransactions\<close>.

  Modelled from the spec: the table schemas are not part of the sources. Following the
  spec's data model, \<^verbatim>\<open>transactions.id\<close> is an integer, \<^verbatim>\<open>sol_quantity\<close>,
  \<^verbatim>\<open>fee_distributions.amount\<close> and \<^verbatim>\<open>users.fees_claimed_so_far\<close> are decimals, no
  column read by the service is NULL, and the latest row of \<^verbatim>\<open>transaction_tracker\<close> by
  timestamp is the row inserted last. Decimals are exact rationals. A JavaScript
  \<^verbatim>\<open>number\<close> is an exact rational as well: the rounding of IEEE doubles is not
  modelled.
\<close>

type_synonym address = string
type_synonym signature = string
type_synonym blockhash = string

record transaction_row =
  tx_id :: int
  coin_id :: string
  sol_quantity :: rat

record coin_row =
  mint_address :: string
  creator_wallet_address :: address

record fee_distribution_row =
  receiver_address :: address
  transaction_hash :: signature
  fd_amount :: rat

record user_row =
  wallet_address :: address
  fees_claimed_so_far :: rat

text \<open>The element type of the argument of \<^verbatim>\<open>sendSolanaTransactions\<close>.\<close>

record distribution =
  recipient :: address
  amount :: rat

text \<open>
  One \<^verbatim>\<open>SystemProgram.transfer\<close> instruction and the \<^verbatim>\<open>Transaction\<close> that is
  sent. The sender and the fee payer are the fee master key in every transaction and
  are left out.
\<close>

record transfer_ix =
  toPubkey :: address
  lamports :: int

record payload =
  instructions :: "transfer_ix list"
  recentBlockhash :: blockhash

text \<open>
  What the service and the runtime leave behind besides table rows: the iterations of
  the retry loop entered (batch number and \<^verbatim>\<open>retryCount\<close>), the waits of
  \<^verbatim>\<open>setTimeout\<close> in milliseconds, and three log lines: \<^verbatim>\<open>Batch transaction successful\<close>
  with its signature, \<^verbatim>\<open>Failed to process batch after 3 attempts\<close> where the loop
  rethrows, and \<^verbatim>\<open>No distributions above minimum threshold\<close>. The batch number in an
  event is not part of the log line.
\<close>

datatype event =
    Attempt nat nat
  | Sleep nat
  | BatchSuccessful nat signature
  | GaveUp nat
  | NoDistributionsAboveThreshold

text \<open>
  The database, the external network (\<open>posted\<close>: the transactions that took effect on
  chain, oldest first) and the trace. \<open>transaction_tracker\<close> lists the inserted
  \<^verbatim>\<open>max_transaction_id\<close> values, oldest first; the column is nullable.
\<close>

record world =
  transactions :: "transaction_row list"
  coins :: "coin_row list"
  transaction_tracker :: "int option list"
  fee_distributions :: "fee_distribution_row list"
  users :: "user_row list"
  posted :: "(signature \<times> payload) list"
  trace :: "event list"

datatype error =
    InvalidPublicKey address
  | BlockhashError
  | SendTransactionError
  | ConfirmationError
  | TransactionFailed
  | DatabaseError

definition BATCH_SIZE :: nat where "BATCH_SIZE = 10"
definition FEE_ADJUSTMENT :: rat where "FEE_ADJUSTMENT = 99 / 100"
definition MAX_RETRIES :: nat where "MAX_RETRIES = 3"
definition RETRY_DELAY :: nat where "RETRY_DELAY = 2000"
definition MIN_AMOUNT_THRESHOLD :: rat where "MIN_AMOUNT_THRESHOLD = 1 / 1000"

text \<open>The constant exported by \<^verbatim>\<open>@solana/web3.js\<close>.\<close>

definition LAMPORTS_PER_SOL :: rat where "LAMPORTS_PER_SOL = 1000000000"

text \<open>The two literals of the aggregation query.\<close>

definition FEE_RATE :: rat where "FEE_RATE = 2 / 1000"
definition HAVING_THRESHOLD :: rat where "HAVING_THRESHOLD = 1 / 1000"

section \<open>Aggregation: the query of \<^verbatim>\<open>processTransactions\<close>\<close>

text \<open>
  \<^verbatim>\<open>SELECT max_transaction_id FROM transaction_tracker ORDER BY timestamp DESC LIMIT 1\<close>,
  then \<^verbatim>\<open>maxTransactionId || 0\<close>: no row, NULL and 0 all give 0.
\<close>

definition maxTransactionId :: "world \<Rightarrow> int option" where
  "maxTransactionId w =
     (if transaction_tracker w = [] then None else last (transaction_tracker w))"

definition cursor_param :: "int option \<Rightarrow> int" where
  "cursor_param m = (case m of None \<Rightarrow> 0 | Some v \<Rightarrow> v)"

text \<open>
  \<^verbatim>\<open>FROM transactions t JOIN coins c ON t.coin_id = c.mint_address WHERE t.id > $1\<close>:
  one row per matching pair, carrying the group key and the summand.
\<close>

definition joined :: "world \<Rightarrow> int \<Rightarrow> (address \<times> rat) list" where
  "joined w c =
     [(creator_wallet_address k, sol_quantity t).
        t \<leftarrow> transactions w, k \<leftarrow> coins w, coin_id t = mint_address k, c < tx_id t]"

text \<open>
  \<^verbatim>\<open>GROUP BY c.creator_wallet_address\<close> with \<^verbatim>\<open>SUM(t.sol_quantity * 0.002)\<close>, then
  \<^verbatim>\<open>HAVING SUM(...) >= 0.001\<close>. SQL leaves the order of the groups open; the model
  lists them by last occurrence.
\<close>

definition total_sol :: "(address \<times> rat) list \<Rightarrow> address \<Rightarrow> rat" where
  "total_sol j a = sum_list [q * FEE_RATE. (a', q) \<leftarrow> j, a' = a]"

definition accumulated_fees :: "world \<Rightarrow> int \<Rightarrow> distribution list" where
  "accumulated_fees w c =
     (let j = joined w c
      in filter (\<lambda>d. HAVING_THRESHOLD \<le> amount d)
           [\<lparr>recipient = a, amount = total_sol j a\<rparr>. a \<leftarrow> remdups (map fst j)])"

text \<open>\<^verbatim>\<open>SELECT MAX(id) as max_id FROM transactions\<close>: NULL on an empty table.\<close>

fun max_id :: "transaction_row list \<Rightarrow> int option" where
  "max_id [] = None"
| "max_id (t # ts) =
     (case max_id ts of None \<Rightarrow> Some (tx_id t) | Some m \<Rightarrow> Some (max (tx_id t) m))"

section \<open>Database clients\<close>

text \<open>
  The statements that change a table: the two of the batch loop and the one on
  \<^verbatim>\<open>transaction_tracker\<close>. An \<^verbatim>\<open>UPDATE\<close> changes every row that matches its
  \<^verbatim>\<open>WHERE\<close> clause, none when there is none.
\<close>

datatype mutation =
    InsertDistribution address signature rat
  | UpdateUser rat address
  | InsertTracker "int option"

fun apply_write :: "mutation \<Rightarrow> world \<Rightarrow> world" where
  "apply_write (InsertDistribution r sg a) w =
     w\<lparr>fee_distributions := fee_distributions w @
          [\<lparr>receiver_address = r, transaction_hash = sg, fd_amount = a\<rparr>]\<rparr>"
| "apply_write (UpdateUser a r) w =
     w\<lparr>users := map (\<lambda>u. if wallet_address u = r
                          then u\<lparr>fees_claimed_so_far := fees_claimed_so_far u + a\<rparr>
                          else u) (users w)\<rparr>"
| "apply_write (InsertTracker m) w =
     w\<lparr>transaction_tracker := transaction_tracker w @ [m]\<rparr>"

datatype stmt = BEGIN | SELECT | WRITE mutation | COMMIT | ROLLBACK

text \<open>
  A pooled client. \<open>fault\<close> is the environment's choice of the call that throws: the
  number of calls that still succeed, or \<open>None\<close> when none throws. \<open>staged\<close> holds
  the writes of the open transaction, which reach the tables at \<^verbatim>\<open>COMMIT\<close>; without
  an open transaction a write applies at once. At most one call of a client throws.
\<close>

record client =
  fault :: "nat option"
  staged :: "mutation list option"

definition connect :: "nat option \<Rightarrow> error + client" where
  "connect f =
     (if f = Some 0 then Inl DatabaseError
      else Inr \<lparr>fault = map_option (\<lambda>n. n - 1) f, staged = None\<rparr>)"

definition query :: "stmt \<Rightarrow> client \<Rightarrow> world \<Rightarrow> (error + unit) \<times> client \<times> world" where
  "query s c w =
     (if fault c = Some 0 then (Inl DatabaseError, c\<lparr>fault := None\<rparr>, w)
      else
        let c1 = c\<lparr>fault := map_option (\<lambda>n. n - 1) (fault c)\<rparr>
        in (case s of
              BEGIN \<Rightarrow> (Inr (), c1\<lparr>staged := Some []\<rparr>, w)
            | SELECT \<Rightarrow> (Inr (), c1, w)
            | WRITE x \<Rightarrow>
                (case staged c of
                   None \<Rightarrow> (Inr (), c1, apply_write x w)
                 | Some xs \<Rightarrow> (Inr (), c1\<lparr>staged := Some (xs @ [x])\<rparr>, w))
            | COMMIT \<Rightarrow>
                (case staged c of
                   None \<Rightarrow> (Inr (), c1, w)
                 | Some xs \<Rightarrow> (Inr (), c1\<lparr>staged := None\<rparr>, fold apply_write xs w))
            | ROLLBACK \<Rightarrow> (Inr (), c1\<lparr>staged := None\<rparr>, w)))"

text \<open>Awaited calls in sequence inside one \<^verbatim>\<open>try\<close> block: the first throw ends it.\<close>

definition and_then ::
  "(error + 'a) \<times> client \<times> world \<Rightarrow>
   ('a \<Rightarrow> client \<Rightarrow> world \<Rightarrow> (error + 'b) \<times> client \<times> world) \<Rightarrow>
   (error + 'b) \<times> client \<times> world" where
  "and_then r k = (case r of (Inl e, c, w) \<Rightarrow> (Inl e, c, w) | (Inr x, c, w) \<Rightarrow> k x c w)"

fun queries :: "stmt list \<Rightarrow> client \<Rightarrow> world \<Rightarrow> (error + unit) \<times> client \<times> world" where
  "queries [] c w = (Inr (), c, w)"
| "queries (s # ss) c w = and_then (query s c w) (\<lambda>_. queries ss)"

text \<open>
  \<^verbatim>\<open>catch { await client.query('ROLLBACK'); throw error }\<close>, then the release. When
  the \<^verbatim>\<open>ROLLBACK\<close> itself throws, its error is the one that leaves the block.
\<close>

definition rollback_on_error :: "(error + unit) \<times> client \<times> world \<Rightarrow> (error + unit) \<times> world" where
  "rollback_on_error r =
     (case r of
        (Inl e, c, w) \<Rightarrow>
          (case query ROLLBACK c w of
             (Inl e', _, w') \<Rightarrow> (Inl e', w')
           | (Inr _, _, w') \<Rightarrow> (Inl e, w'))
      | (Inr u, c, w) \<Rightarrow> (Inr u, w))"

section \<open>\<^verbatim>\<open>sendSolanaTransactions\<close>\<close>

text \<open>
  What the environment decides for one iteration of the retry loop: the answer of the
  network and the failing call of the local write. \<open>TimedOut\<close> is a throw of
  \<^verbatim>\<open>confirmTransaction\<close>, with whether the transaction took effect all the same;
  \<open>Rejected\<close> is a confirmation whose \<^verbatim>\<open>value.err\<close> is set.
\<close>

datatype net_outcome =
    BlockhashUnavailable
  | SendFailed blockhash
  | TimedOut blockhash signature bool
  | Rejected blockhash signature
  | Confirmed blockhash signature

record attempt_env =
  net :: net_outcome
  db_fault :: "nat option"

text \<open>
  The environment of one pass: which strings \<^verbatim>\<open>new PublicKey\<close> accepts, the outcome of
  each loop iteration (by batch number and \<^verbatim>\<open>retryCount\<close>), the rows that the upstream
  ingestion commits to \<^verbatim>\<open>transactions\<close> after the aggregation query has run (the
  client's transaction reads committed rows statement by statement), and the failing
  call of the pass's own client.
\<close>

record pass_env =
  valid_pubkey :: "address \<Rightarrow> bool"
  attempts :: "nat \<Rightarrow> nat \<Rightarrow> attempt_env"
  arrivals :: "transaction_row list"
  outer_fault :: "nat option"

definition adjustedAmount :: "rat \<Rightarrow> int" where
  "adjustedAmount a = \<lfloor>a * LAMPORTS_PER_SOL * FEE_ADJUSTMENT\<rfloor>"

definition transfer :: "distribution \<Rightarrow> transfer_ix" where
  "transfer d = \<lparr>toPubkey = recipient d, lamports = adjustedAmount (amount d)\<rparr>"

definition transaction :: "blockhash \<Rightarrow> distribution list \<Rightarrow> payload" where
  "transaction bh batch = \<lparr>instructions = map transfer batch, recentBlockhash = bh\<rparr>"

definition batch_writes :: "signature \<Rightarrow> distribution list \<Rightarrow> mutation list" where
  "batch_writes sg batch =
     concat (map (\<lambda>d. [InsertDistribution (recipient d) sg (amount d),
                        UpdateUser (amount d) (recipient d)]) batch)"

text \<open>The inner block: \<^verbatim>\<open>pool.connect\<close>, \<^verbatim>\<open>BEGIN\<close>, the two statements per recipient, \<^verbatim>\<open>COMMIT\<close>.\<close>

definition record_batch ::
  "nat option \<Rightarrow> signature \<Rightarrow> distribution list \<Rightarrow> world \<Rightarrow> (error + unit) \<times> world" where
  "record_batch f sg batch w =
     (case connect f of
        Inl e \<Rightarrow> (Inl e, w)
      | Inr c \<Rightarrow>
          rollback_on_error
            (queries (BEGIN # map WRITE (batch_writes sg batch) @ [COMMIT]) c w))"

text \<open>The body of the outer \<^verbatim>\<open>try\<close> of one iteration.\<close>

definition submit_and_record ::
  "attempt_env \<Rightarrow> nat \<Rightarrow> distribution list \<Rightarrow> world \<Rightarrow> (error + unit) \<times> world" where
  "submit_and_record a bi batch w =
     (case net a of
        BlockhashUnavailable \<Rightarrow> (Inl BlockhashError, w)
      | SendFailed bh \<Rightarrow> (Inl SendTransactionError, w)
      | TimedOut bh sg landed \<Rightarrow>
          (Inl ConfirmationError,
           if landed then w\<lparr>posted := posted w @ [(sg, transaction bh batch)]\<rparr> else w)
      | Rejected bh sg \<Rightarrow> (Inl TransactionFailed, w)
      | Confirmed bh sg \<Rightarrow>
          record_batch (db_fault a) sg batch
            (w\<lparr>posted := posted w @ [(sg, transaction bh batch)],
               trace := trace w @ [BatchSuccessful bi sg]\<rparr>))"

text \<open>
  \<^verbatim>\<open>while (!success && retryCount < MAX_RETRIES)\<close>. Building the transaction comes
  before the \<^verbatim>\<open>try\<close>: a recipient that \<^verbatim>\<open>new PublicKey\<close> refuses throws past the
  retry.
\<close>

function retry_loop ::
  "pass_env \<Rightarrow> nat \<Rightarrow> distribution list \<Rightarrow> nat \<Rightarrow> world \<Rightarrow> (error + unit) \<times> world" where
  "retry_loop env bi batch retryCount w =
     (if retryCount < MAX_RETRIES then
        (case find (\<lambda>d. \<not> valid_pubkey env (recipient d)) batch of
           Some d \<Rightarrow> (Inl (InvalidPublicKey (recipient d)),
                      w\<lparr>trace := trace w @ [Attempt bi retryCount]\<rparr>)
         | None \<Rightarrow>
             (case submit_and_record (attempts env bi retryCount) bi batch
                     (w\<lparr>trace := trace w @ [Attempt bi retryCount]\<rparr>) of
                (Inr u, w') \<Rightarrow> (Inr u, w')
              | (Inl e, w') \<Rightarrow>
                  if retryCount + 1 < MAX_RETRIES
                  then retry_loop env bi batch (retryCount + 1)
                         (w'\<lparr>trace := trace w' @ [Sleep RETRY_DELAY]\<rparr>)
                  else (Inl e, w'\<lparr>trace := trace w' @ [GaveUp bi]\<rparr>)))
      else (Inr (), w))"
  by pat_completeness auto
termination
  by (relation "measure (\<lambda>(env, bi, batch, retryCount, w). MAX_RETRIES - retryCount)")
     (auto simp: MAX_RETRIES_def)

text \<open>\<^verbatim>\<open>for (let i = 0; i < n; i += BATCH_SIZE) batch = slice(i, i + BATCH_SIZE)\<close>.\<close>

function batches :: "distribution list \<Rightarrow> distribution list list" where
  "batches ds = (if ds = [] then [] else take BATCH_SIZE ds # batches (drop BATCH_SIZE ds))"
  by pat_completeness auto
termination
  by (relation "measure length") (auto simp: BATCH_SIZE_def)

fun send_batches ::
  "pass_env \<Rightarrow> nat \<Rightarrow> distribution list list \<Rightarrow> world \<Rightarrow> (error + unit) \<times> world" where
  "send_batches env bi [] w = (Inr (), w)"
| "send_batches env bi (batch # rest) w =
     (case retry_loop env bi batch 0 w of
        (Inl e, w') \<Rightarrow> (Inl e, w')
      | (Inr _, w') \<Rightarrow> send_batches env (bi + 1) rest w')"

definition sendSolanaTransactions ::
  "pass_env \<Rightarrow> distribution list \<Rightarrow> world \<Rightarrow> (error + unit) \<times> world" where
  "sendSolanaTransactions env distributions w =
     (let validDistributions = filter (\<lambda>d. MIN_AMOUNT_THRESHOLD \<le> amount d) distributions
      in if validDistributions = []
         then (Inr (), w\<lparr>trace := trace w @ [NoDistributionsAboveThreshold]\<rparr>)
         else send_batches env 0 (batches validDistributions) w)"

section \<open>\<^verbatim>\<open>processTransactions\<close> and \<^verbatim>\<open>handleCron\<close>\<close>

text \<open>
  The \<^verbatim>\<open>try\<close> block of \<^verbatim>\<open>processTransactions\<close>, in two parts: the reads up to the
  aggregation query, whose rows the pass keeps in a local variable, and the rest from
  \<^verbatim>\<open>if (result.rows.length > 0)\<close> on. The rows that arrive from upstream are committed
  between the two. The transfers run on clients of their own, so their rows are committed
  whatever happens to this client's transaction.
\<close>

definition pass_reads :: "client \<Rightarrow> world \<Rightarrow> (error + distribution list) \<times> client \<times> world" where
  "pass_reads c0 w0 =
     and_then (query BEGIN c0 w0) (\<lambda>_ c1 w1.
     and_then (query SELECT c1 w1) (\<lambda>_ c2 w2.
       let maxId = maxTransactionId w2 in
     and_then (query SELECT c2 w2) (\<lambda>_ c3 w3.
       (Inr (accumulated_fees w3 (cursor_param maxId)), c3, w3))))"

definition pass_rest ::
  "pass_env \<Rightarrow> distribution list \<Rightarrow> client \<Rightarrow> world \<Rightarrow> (error + unit) \<times> client \<times> world" where
  "pass_rest env rows c3 w4 =
     (if rows \<noteq> [] then
        (case sendSolanaTransactions env rows w4 of
           (Inl e, w5) \<Rightarrow> (Inl e, c3, w5)
         | (Inr _, w5) \<Rightarrow>
             and_then (query SELECT c3 w5) (\<lambda>_ c6 w6.
               let newMaxTransactionId = max_id (transactions w6) in
             and_then (query (WRITE (InsertTracker newMaxTransactionId)) c6 w6) (\<lambda>_ c7 w7.
             query COMMIT c7 w7)))
      else query COMMIT c3 w4)"

definition pass_body :: "pass_env \<Rightarrow> client \<Rightarrow> world \<Rightarrow> (error + unit) \<times> client \<times> world" where
  "pass_body env c0 w0 =
     and_then (pass_reads c0 w0) (\<lambda>rows c3 w3.
       pass_rest env rows c3 (w3\<lparr>transactions := transactions w3 @ arrivals env\<rparr>))"

definition processTransactions :: "pass_env \<Rightarrow> world \<Rightarrow> (error + unit) \<times> world" where
  "processTransactions env w =
     (case connect (outer_fault env) of
        Inl e \<Rightarrow> (Inl e, w)
      | Inr c \<Rightarrow> rollback_on_error (pass_body env c w))"

text \<open>
  The scheduler calls \<^verbatim>\<open>handleCron\<close> at every fire of the 30-second timer, and the
  call returns to the event loop at its first wait. The service has no field that
  records a pass in progress (its fields are the logger, the pool, the connection and the
  key), so the passes in flight are state of the runtime: each holds its environment, the
  rows its aggregation query returned and its client. The model lets passes interleave at
  one point, between the reads and the rest of the pass. \<^verbatim>\<open>handleCron\<close> catches and
  logs what a pass throws.
\<close>

record runtime =
  db :: world
  in_flight :: "(pass_env \<times> distribution list \<times> client) list"

definition handleCron :: "pass_env \<Rightarrow> runtime \<Rightarrow> runtime" where
  "handleCron env rt =
     (case connect (outer_fault env) of
        Inl e \<Rightarrow> rt
      | Inr c \<Rightarrow>
          (case pass_reads c (db rt) of
             (Inl e, c', w) \<Rightarrow> rt\<lparr>db := snd (rollback_on_error (Inl e, c', w))\<rparr>
           | (Inr rows, c', w) \<Rightarrow>
               rt\<lparr>db := w, in_flight := in_flight rt @ [(env, rows, c')]\<rparr>))"

definition resume :: "nat \<Rightarrow> runtime \<Rightarrow> runtime" where
  "resume i rt =
     (if i < length (in_flight rt) then
        (case in_flight rt ! i of
           (env, rows, c) \<Rightarrow>
             \<lparr>db = snd (rollback_on_error
                     (pass_rest env rows c
                        ((db rt)\<lparr>transactions := transactions (db rt) @ arrivals env\<rparr>))),
              in_flight = take i (in_flight rt) @ drop (Suc i) (in_flight rt)\<rparr>)
      else rt)"

datatype tick = TimerFires pass_env | PassResumes nat

fun step :: "runtime \<Rightarrow> tick \<Rightarrow> runtime" where
  "step rt (TimerFires env) = handleCron env rt"
| "step rt (PassResumes i) = resume i rt"

definition run :: "tick list \<Rightarrow> runtime \<Rightarrow> runtime" where
  "run ts rt = foldl step rt ts"

section \<open>Notions used in the statements\<close>

text \<open>
  The local write of a batch makes \<open>n\<close> calls after \<^verbatim>\<open>pool.connect\<close>; it throws
  when the environment's failing call is among them.
\<close>

definition failing :: "nat option \<Rightarrow> nat \<Rightarrow> bool" where
  "failing f n = (case f of None \<Rightarrow> False | Some k \<Rightarrow> k \<le> n)"

text \<open>The row that the \<^verbatim>\<open>INSERT\<close> of the batch loop adds for one distribution.\<close>

definition distribution_record :: "signature \<Rightarrow> distribution \<Rightarrow> fee_distribution_row" where
  "distribution_record sg d =
     \<lparr>receiver_address = recipient d, transaction_hash = sg, fd_amount = amount d\<rparr>"

text \<open>A \<^verbatim>\<open>users\<close> row after the \<^verbatim>\<open>UPDATE\<close>s of a whole batch.\<close>

definition credited :: "distribution list \<Rightarrow> user_row \<Rightarrow> user_row" where
  "credited batch u =
     u\<lparr>fees_claimed_so_far := fees_claimed_so_far u +
          sum_list [amount d. d \<leftarrow> batch, recipient d = wallet_address u]\<rparr>"

text \<open>
  \<open>quiet\<close>: a stretch of the run that changes no table and gives up on no batch.
  \<open>outcome\<close>: what the retry loop of batch \<open>bi\<close> leaves behind.
\<close>

definition quiet :: "world \<Rightarrow> world \<Rightarrow> bool" where
  "quiet w w' \<longleftrightarrow>
     transactions w' = transactions w \<and> coins w' = coins w \<and>
     transaction_tracker w' = transaction_tracker w \<and>
     fee_distributions w' = fee_distributions w \<and> users w' = users w \<and>
     (\<exists>tr. trace w' = trace w @ tr \<and> (\<forall>j. GaveUp j \<notin> set tr)) \<and>
     (\<exists>ps. posted w' = posted w @ ps)"

definition outcome :: "nat \<Rightarrow> distribution list \<Rightarrow> error + unit \<Rightarrow> world \<Rightarrow> world \<Rightarrow> bool" where
  "outcome bi batch r w w' \<longleftrightarrow>
     transactions w' = transactions w \<and> coins w' = coins w \<and>
     transaction_tracker w' = transaction_tracker w \<and>
     (\<exists>tr. trace w' = trace w @ tr \<and>
        (\<forall>j. GaveUp j \<in> set tr \<longrightarrow> j = bi \<and> (\<exists>e. r = Inl e))) \<and>
     (\<exists>ps. posted w' = posted w @ ps) \<and>
     (case r of
        Inl e \<Rightarrow> fee_distributions w' = fee_distributions w \<and> users w' = users w
      | Inr u \<Rightarrow>
          (\<exists>sg. fee_distributions w' = fee_distributions w @ map (distribution_record sg) batch) \<and>
          users w' = map (credited batch) (users w))"

text \<open>
  The loop iterations entered for batch \<open>bi\<close> in a stretch of the trace, and whether
  every wait in it is \<^verbatim>\<open>RETRY_DELAY\<close> long.
\<close>

definition attempts_made :: "nat \<Rightarrow> event list \<Rightarrow> nat" where
  "attempts_made bi tr =
     length (filter (\<lambda>ev. case ev of Attempt b k \<Rightarrow> b = bi | _ \<Rightarrow> False) tr)"

definition paced :: "event list \<Rightarrow> bool" where
  "paced tr = list_all (\<lambda>ev. case ev of Sleep ms \<Rightarrow> ms = RETRY_DELAY | _ \<Rightarrow> True) tr"

text \<open>
  Modelled from the spec: \<open>observedMaxId\<close> of the aggregation step (section 4.2), the
  maximum event id in the evaluated event set, that is among the events above the cursor
  when the aggregation query runs. The code computes no such value.
\<close>

definition observedMaxId :: "world \<Rightarrow> int option" where
  "observedMaxId w =
     max_id (filter (\<lambda>t. cursor_param (maxTransactionId w) < tx_id t) (transactions w))"

section \<open>Example data\<close>

text \<open>
  Two creators with one event each: 10 SOL of volume for the first (a fee of 0.02) and
  0.1 SOL for the second (a fee of 0.0002, under the threshold). Only the first creator
  has a row in \<^verbatim>\<open>users\<close>.
\<close>

definition example_world :: world where
  "example_world =
     \<lparr>transactions =
        [\<lparr>tx_id = 1, coin_id = ''MintA'', sol_quantity = 10\<rparr>,
         \<lparr>tx_id = 2, coin_id = ''MintB'', sol_quantity = 1 / 10\<rparr>],
      coins =
        [\<lparr>mint_address = ''MintA'', creator_wallet_address = ''WalletA''\<rparr>,
         \<lparr>mint_address = ''MintB'', creator_wallet_address = ''WalletB''\<rparr>],
      transaction_tracker = [],
      fee_distributions = [],
      users = [\<lparr>wallet_address = ''WalletA'', fees_claimed_so_far = 0\<rparr>],
      posted = [],
      trace = []\<rparr>"

text \<open>An environment whose first iteration of every batch is \<open>a\<close> and whose later ones are \<open>b\<close>.\<close>

definition first_then :: "attempt_env \<Rightarrow> attempt_env \<Rightarrow> pass_env" where
  "first_then a b =
     \<lparr>valid_pubkey = (\<lambda>_. True),
      attempts = (\<lambda>bi retryCount. if retryCount = 0 then a else b),
      arrivals = [],
      outer_fault = None\<rparr>"

definition confirmed1 :: attempt_env where
  "confirmed1 = \<lparr>net = Confirmed ''hash1'' ''sig1'', db_fault = None\<rparr>"

definition confirmed2 :: attempt_env where
  "confirmed2 = \<lparr>net = Confirmed ''hash2'' ''sig2'', db_fault = None\<rparr>"

definition unavailable :: attempt_env where
  "unavailable = \<lparr>net = BlockhashUnavailable, db_fault = None\<rparr>"

definition failed_write :: attempt_env where
  "failed_write = \<lparr>net = Confirmed ''hash1'' ''sig1'', db_fault = Some 3\<rparr>"


definition rejected1 :: attempt_env where
  "rejected1 = \<lparr>net = Rejected ''hash1'' ''sig1'', db_fault = None\<rparr>"

section \<open>The database client\<close>

declare retry_loop.simps [simp del]

lemma queries_append:
  "queries (ss @ ts) c w = and_then (queries ss c w) (\<lambda>_. queries ts)"
  by (induction ss arbitrary: c w)
     (auto simp: and_then_def split: prod.splits sum.splits)

lemma queries_writes_staged:
  "queries (map WRITE ws) \<lparr>fault = f, staged = Some xs\<rparr> w =
     (case f of
        None \<Rightarrow> (Inr (), \<lparr>fault = None, staged = Some (xs @ ws)\<rparr>, w)
      | Some n \<Rightarrow>
          if n < length ws
          then (Inl DatabaseError, \<lparr>fault = None, staged = Some (xs @ take n ws)\<rparr>, w)
          else (Inr (), \<lparr>fault = Some (n - length ws), staged = Some (xs @ ws)\<rparr>, w))"
proof (induction ws arbitrary: f xs)
  case Nil
  show ?case by (cases f) auto
next
  case (Cons x ws)
  show ?case
  proof (cases f)
    case None
    with Cons[of None "xs @ [x]"] show ?thesis
      by (simp add: query_def and_then_def)
  next
    case (Some n)
    show ?thesis
    proof (cases n)
      case 0
      with Some show ?thesis by (simp add: query_def and_then_def)
    next
      case (Suc m)
      with Some Cons[of "Some m" "xs @ [x]"] show ?thesis
        by (simp add: query_def and_then_def)
    qed
  qed
qed

lemma length_batch_writes: "length (batch_writes sg batch) = 2 * length batch"
  by (induction batch) (auto simp: batch_writes_def)

lemma record_batch_eq:
  "record_batch f sg batch w =
     (if failing f (2 * length batch + 2) then (Inl DatabaseError, w)
      else (Inr (), fold apply_write (batch_writes sg batch) w))"
proof (cases f)
  case None
  then show ?thesis
    by (simp add: record_batch_def connect_def failing_def queries_append
        queries_writes_staged query_def and_then_def rollback_on_error_def)
next
  case (Some n)
  show ?thesis
  proof (cases n)
    case 0
    with Some show ?thesis by (simp add: record_batch_def connect_def failing_def)
  next
    case (Suc m)
    show ?thesis
    proof (cases m)
      case 0
      with Some Suc show ?thesis
        by (simp add: record_batch_def connect_def failing_def query_def and_then_def
            rollback_on_error_def)
    next
      case (Suc k)
      with Some \<open>n = Suc m\<close> show ?thesis
        by (auto simp: record_batch_def connect_def failing_def queries_append
            queries_writes_staged query_def and_then_def rollback_on_error_def
            length_batch_writes)
    qed
  qed
qed

section \<open>One batch\<close>

lemma wallet_credited [simp]: "wallet_address (credited b u) = wallet_address u"
  by (simp add: credited_def)

lemma credited_Nil [simp]: "credited [] u = u"
  by (simp add: credited_def)

lemma fold_batch_writes:
  "fold apply_write (batch_writes sg batch) w =
     w\<lparr>fee_distributions := fee_distributions w @ map (distribution_record sg) batch,
        users := map (credited batch) (users w)\<rparr>"
proof (induction batch arbitrary: w)
  case Nil
  show ?case by (simp add: batch_writes_def)
next
  case (Cons d batch)
  have step: "batch_writes sg (d # batch) =
      InsertDistribution (recipient d) sg (amount d) # UpdateUser (amount d) (recipient d)
        # batch_writes sg batch"
    by (simp add: batch_writes_def)
  have "map (credited batch \<circ> (\<lambda>u. if wallet_address u = recipient d
            then u\<lparr>fees_claimed_so_far := fees_claimed_so_far u + amount d\<rparr> else u)) us
        = map (credited (d # batch)) us" for us
    by (rule map_cong) (auto simp: credited_def)
  then show ?case
    by (simp add: step Cons.IH distribution_record_def)
qed

lemma retry_loop_step:
  assumes "retryCount < MAX_RETRIES"
    and "find (\<lambda>d. \<not> valid_pubkey env (recipient d)) batch = None"
    and "submit_and_record (attempts env bi retryCount) bi batch
           (w\<lparr>trace := trace w @ [Attempt bi retryCount]\<rparr>) = (Inl e, w1)"
  shows "retry_loop env bi batch retryCount w =
     (if retryCount + 1 < MAX_RETRIES
      then retry_loop env bi batch (retryCount + 1) (w1\<lparr>trace := trace w1 @ [Sleep RETRY_DELAY]\<rparr>)
      else (Inl e, w1\<lparr>trace := trace w1 @ [GaveUp bi]\<rparr>))"
  using assms by (subst retry_loop.simps) simp

lemma retry_loop_success:
  assumes "retryCount < MAX_RETRIES"
    and "find (\<lambda>d. \<not> valid_pubkey env (recipient d)) batch = None"
    and "submit_and_record (attempts env bi retryCount) bi batch
           (w\<lparr>trace := trace w @ [Attempt bi retryCount]\<rparr>) = (Inr u, w1)"
  shows "retry_loop env bi batch retryCount w = (Inr u, w1)"
  using assms by (subst retry_loop.simps) simp

lemma retry_loop_invalid:
  assumes "retryCount < MAX_RETRIES"
    and "find (\<lambda>d. \<not> valid_pubkey env (recipient d)) batch = Some d"
  shows "retry_loop env bi batch retryCount w =
     (Inl (InvalidPublicKey (recipient d)), w\<lparr>trace := trace w @ [Attempt bi retryCount]\<rparr>)"
  using assms by (subst retry_loop.simps) simp

lemma submit_and_record_eq:
  "submit_and_record a bi batch w =
     (case net a of
        BlockhashUnavailable \<Rightarrow> (Inl BlockhashError, w)
      | SendFailed bh \<Rightarrow> (Inl SendTransactionError, w)
      | TimedOut bh sg landed \<Rightarrow>
          (Inl ConfirmationError,
           if landed then w\<lparr>posted := posted w @ [(sg, transaction bh batch)]\<rparr> else w)
      | Rejected bh sg \<Rightarrow> (Inl TransactionFailed, w)
      | Confirmed bh sg \<Rightarrow>
          if failing (db_fault a) (2 * length batch + 2)
          then (Inl DatabaseError,
                w\<lparr>posted := posted w @ [(sg, transaction bh batch)],
                  trace := trace w @ [BatchSuccessful bi sg]\<rparr>)
          else (Inr (),
                w\<lparr>posted := posted w @ [(sg, transaction bh batch)],
                  trace := trace w @ [BatchSuccessful bi sg],
                  fee_distributions := fee_distributions w @ map (distribution_record sg) batch,
                  users := map (credited batch) (users w)\<rparr>))"
  by (simp add: submit_and_record_def record_batch_eq fold_batch_writes split: net_outcome.splits)



lemma quiet_refl: "quiet w w"
  by (simp add: quiet_def)

lemma quiet_trace: "(\<forall>j. ev \<noteq> GaveUp j) \<Longrightarrow> quiet w (w\<lparr>trace := trace w @ [ev]\<rparr>)"
  by (auto simp: quiet_def)

lemma quiet_trans:
  assumes "quiet w w1" and "quiet w1 w2"
  shows "quiet w w2"
proof -
  from assms(1) obtain tr ps where 1: "trace w1 = trace w @ tr" "\<forall>j. GaveUp j \<notin> set tr"
    "posted w1 = posted w @ ps"
    unfolding quiet_def by blast
  from assms(2) obtain tr' ps' where 2: "trace w2 = trace w1 @ tr'" "\<forall>j. GaveUp j \<notin> set tr'"
    "posted w2 = posted w1 @ ps'"
    unfolding quiet_def by blast
  have "trace w2 = trace w @ (tr @ tr')" "\<forall>j. GaveUp j \<notin> set (tr @ tr')"
    "posted w2 = posted w @ (ps @ ps')"
    using 1 2 by simp_all
  moreover have "transactions w2 = transactions w" "coins w2 = coins w"
    "transaction_tracker w2 = transaction_tracker w"
    "fee_distributions w2 = fee_distributions w" "users w2 = users w"
    using assms unfolding quiet_def by simp_all
  ultimately show ?thesis unfolding quiet_def by blast
qed

lemma quiet_outcome:
  assumes "quiet w w1" and "outcome bi batch r w1 w'"
  shows "outcome bi batch r w w'"
proof -
  from assms(1) obtain tr ps where 1: "trace w1 = trace w @ tr" "\<forall>j. GaveUp j \<notin> set tr"
    "posted w1 = posted w @ ps"
    unfolding quiet_def by blast
  from assms(2) obtain tr' ps' where 2: "trace w' = trace w1 @ tr'"
    "\<forall>j. GaveUp j \<in> set tr' \<longrightarrow> j = bi \<and> (\<exists>e. r = Inl e)"
    "posted w' = posted w1 @ ps'"
    unfolding outcome_def by blast
  have a: "trace w' = trace w @ (tr @ tr')"
    "\<forall>j. GaveUp j \<in> set (tr @ tr') \<longrightarrow> j = bi \<and> (\<exists>e. r = Inl e)"
    "posted w' = posted w @ (ps @ ps')"
    using 1 2 by auto
  have b: "transactions w' = transactions w" "coins w' = coins w"
    "transaction_tracker w' = transaction_tracker w"
    using assms unfolding quiet_def outcome_def by simp_all
  have c: "(case r of
        Inl e \<Rightarrow> fee_distributions w' = fee_distributions w \<and> users w' = users w
      | Inr u \<Rightarrow>
          (\<exists>sg. fee_distributions w' = fee_distributions w @ map (distribution_record sg) batch) \<and>
          users w' = map (credited batch) (users w))"
    using assms unfolding quiet_def outcome_def by (cases r) simp_all
  from a b c show ?thesis unfolding outcome_def by blast
qed

lemma quiet_gave_up: "quiet w w1 \<Longrightarrow> outcome bi batch (Inl e) w (w1\<lparr>trace := trace w1 @ [GaveUp bi]\<rparr>)"
  unfolding quiet_def outcome_def by auto

lemma submit_and_record_outcome:
  assumes "submit_and_record a bi batch w = (r, w')"
  shows "(case r of Inl e \<Rightarrow> quiet w w' | Inr u \<Rightarrow> outcome bi batch r w w')"
  using assms
  by (auto simp: submit_and_record_eq quiet_def outcome_def split: net_outcome.splits if_splits)

lemma retry_loop_outcome:
  assumes "retry_loop env bi batch k w = (r, w')" and "k < MAX_RETRIES"
  shows "outcome bi batch r w w'"
  using assms
proof (induction env bi batch k w rule: retry_loop.induct)
  case (1 env bi batch k w)
  let ?w0 = "w\<lparr>trace := trace w @ [Attempt bi k]\<rparr>"
  have q0: "quiet w ?w0" by (rule quiet_trace) simp
  show ?case
  proof (cases "find (\<lambda>d. \<not> valid_pubkey env (recipient d)) batch")
    case (Some d)
    with "1.prems" show ?thesis
      by (auto simp: retry_loop_invalid outcome_def)
  next
    case None
    obtain r1 w1 where body: "submit_and_record (attempts env bi k) bi batch ?w0 = (r1, w1)"
      by (cases "submit_and_record (attempts env bi k) bi batch ?w0") auto
    note s = submit_and_record_outcome[OF body]
    show ?thesis
    proof (cases r1)
      case (Inr u)
      with body None "1.prems" have "r = Inr u" "w' = w1"
        by (auto simp: retry_loop_success)
      with s Inr q0 show ?thesis
        by (auto intro: quiet_outcome)
    next
      case (Inl e)
      with s have q1: "quiet ?w0 w1" by simp
      note step = retry_loop_step[OF "1.prems"(2) None body[unfolded Inl]]
      show ?thesis
      proof (cases "k + 1 < MAX_RETRIES")
        case False
        with step "1.prems" have "r = Inl e" "w' = w1\<lparr>trace := trace w1 @ [GaveUp bi]\<rparr>"
          by auto
        with quiet_gave_up[OF quiet_trans[OF q0 q1]] show ?thesis
          by simp
      next
        case True
        let ?w2 = "w1\<lparr>trace := trace w1 @ [Sleep RETRY_DELAY]\<rparr>"
        from True step "1.prems" have rec: "retry_loop env bi batch (k + 1) ?w2 = (r, w')"
          by simp
        have ih: "outcome bi batch r ?w2 w'"
          using "1.IH"[OF "1.prems"(2) None body[symmetric] Inl True rec True] .
        have "quiet w1 ?w2" by (rule quiet_trace) simp
        with q0 q1 have "quiet w ?w2" by (blast intro: quiet_trans)
        with ih show ?thesis by (rule quiet_outcome[rotated])
      qed
    qed
  qed
qed

section \<open>The aggregation query\<close>

lemma joined_for_recipient:
  "[q. (a', q) \<leftarrow> joined w c, a' = a] =
   [sol_quantity t. t \<leftarrow> transactions w, k \<leftarrow> coins w,
      coin_id t = mint_address k, c < tx_id t, creator_wallet_address k = a]"
proof -
  have inner: "[q. (a', q) \<leftarrow> [(creator_wallet_address k, sol_quantity t).
                  k \<leftarrow> ks, coin_id t = mint_address k, c < tx_id t], a' = a] =
        [sol_quantity t. k \<leftarrow> ks, coin_id t = mint_address k, c < tx_id t,
           creator_wallet_address k = a]" for ks t
    by (induction ks) auto
  have "[q. (a', q) \<leftarrow> [(creator_wallet_address k, sol_quantity t).
            t \<leftarrow> ts, k \<leftarrow> ks, coin_id t = mint_address k, c < tx_id t], a' = a] =
        [sol_quantity t. t \<leftarrow> ts, k \<leftarrow> ks, coin_id t = mint_address k, c < tx_id t,
           creator_wallet_address k = a]" for ts ks
  proof (induction ts)
    case Nil show ?case by simp
  next
    case (Cons t ts)
    with inner[of t ks] show ?case by simp
  qed
  then show ?thesis by (simp add: joined_def)
qed

lemma total_sol_eq: "total_sol j a = FEE_RATE * sum_list [q. (a', q) \<leftarrow> j, a' = a]"
proof -
  have "sum_list (map (\<lambda>q. q * FEE_RATE) qs) = FEE_RATE * sum_list qs" for qs :: "rat list"
    by (induction qs) (simp_all add: algebra_simps)
  moreover have "[q * FEE_RATE. (a', q) \<leftarrow> j, a' = a] = map (\<lambda>q. q * FEE_RATE) [q. (a', q) \<leftarrow> j, a' = a]"
    by (induction j) auto
  ultimately show ?thesis by (simp add: total_sol_def)
qed

lemma accumulated_fees_distinct: "distinct (map recipient (accumulated_fees w c))"
proof -
  have "map recipient (filter P [\<lparr>recipient = a, amount = f a\<rparr>. a \<leftarrow> xs]) =
        filter (\<lambda>a. P \<lparr>recipient = a, amount = f a\<rparr>) xs" for P f and xs :: "address list"
    by (induction xs) auto
  then show ?thesis
    by (simp add: accumulated_fees_def Let_def)
qed

lemma accumulated_fees_set:
  "set (accumulated_fees w c) =
     {d. recipient d \<in> fst ` set (joined w c) \<and>
         amount d = total_sol (joined w c) (recipient d) \<and> HAVING_THRESHOLD \<le> amount d}"
proof (rule set_eqI)
  fix d :: distribution
  have "d \<in> (\<lambda>a. \<lparr>recipient = a, amount = total_sol (joined w c) a\<rparr>) ` fst ` set (joined w c)
      \<longleftrightarrow> recipient d \<in> fst ` set (joined w c) \<and> amount d = total_sol (joined w c) (recipient d)"
    (is "?L \<longleftrightarrow> ?R")
  proof
    assume ?L
    then obtain a where "a \<in> fst ` set (joined w c)"
      and "d = \<lparr>recipient = a, amount = total_sol (joined w c) a\<rparr>"
      by (rule imageE)
    then show ?R by simp
  next
    assume r: ?R
    then have "d = \<lparr>recipient = recipient d, amount = total_sol (joined w c) (recipient d)\<rparr>"
      by simp
    with r show ?L by (intro image_eqI[where x = "recipient d"]) simp_all
  qed
  then show "d \<in> set (accumulated_fees w c) \<longleftrightarrow>
     d \<in> {d. recipient d \<in> fst ` set (joined w c) \<and>
         amount d = total_sol (joined w c) (recipient d) \<and> HAVING_THRESHOLD \<le> amount d}"
    by (auto simp: accumulated_fees_def Let_def)
qed

lemma js_filter_id:
  "filter (\<lambda>d. MIN_AMOUNT_THRESHOLD \<le> amount d) (accumulated_fees w c) = accumulated_fees w c"
  by (simp add: accumulated_fees_def Let_def MIN_AMOUNT_THRESHOLD_def HAVING_THRESHOLD_def)

lemma recipients_joined:
  "a \<in> fst ` set (joined w c) \<longleftrightarrow>
     (\<exists>t \<in> set (transactions w). \<exists>k \<in> set (coins w).
        coin_id t = mint_address k \<and> c < tx_id t \<and> creator_wallet_address k = a)"
  by (auto simp: joined_def image_iff)


section \<open>The pass\<close>

declare batches.simps [simp del]

lemma and_then_simps [simp]:
  "and_then (Inl e, c, w) k = (Inl e, c, w)"
  "and_then (Inr x, c, w) k = k x c w"
  by (simp_all add: and_then_def)

lemma processTransactions_eq:
  "processTransactions env w =
     (if failing (outer_fault env) 3 then (Inl DatabaseError, w)
      else
        let rows = accumulated_fees w (cursor_param (maxTransactionId w));
            w4 = w\<lparr>transactions := transactions w @ arrivals env\<rparr>
        in if rows \<noteq> [] then
             (case sendSolanaTransactions env rows w4 of
                (Inl e, w5) \<Rightarrow>
                  (Inl (if outer_fault env = Some 4 then DatabaseError else e), w5)
              | (Inr u, w5) \<Rightarrow>
                  if failing (outer_fault env) 6 then (Inl DatabaseError, w5)
                  else (Inr (), w5\<lparr>transaction_tracker :=
                          transaction_tracker w5 @ [max_id (transactions w5)]\<rparr>))
           else if failing (outer_fault env) 4 then (Inl DatabaseError, w4)
           else (Inr (), w4))"
proof (cases "outer_fault env")
  case None
  obtain r5 w5 where s: "sendSolanaTransactions env
      (accumulated_fees w (cursor_param (maxTransactionId w)))
      (w\<lparr>transactions := transactions w @ arrivals env\<rparr>) = (r5, w5)"
    by (cases "sendSolanaTransactions env
      (accumulated_fees w (cursor_param (maxTransactionId w)))
      (w\<lparr>transactions := transactions w @ arrivals env\<rparr>)") auto
  with None show ?thesis
    by (cases r5) (simp_all add: processTransactions_def pass_body_def pass_reads_def pass_rest_def connect_def query_def
        rollback_on_error_def failing_def Let_def)
next
  case (Some calls)
  obtain r5 w5 where s: "sendSolanaTransactions env
      (accumulated_fees w (cursor_param (maxTransactionId w)))
      (w\<lparr>transactions := transactions w @ arrivals env\<rparr>) = (r5, w5)"
    by (cases "sendSolanaTransactions env
      (accumulated_fees w (cursor_param (maxTransactionId w)))
      (w\<lparr>transactions := transactions w @ arrivals env\<rparr>)") auto
  have "calls = 0 \<or> calls = 1 \<or> calls = 2 \<or> calls = 3 \<or> calls = 4 \<or> calls = 5 \<or> calls = 6 \<or> (\<exists>m. calls = 7 + m)"
    by presburger
  then consider "calls = 0" | "calls = 1" | "calls = 2" | "calls = 3" | "calls = 4" | "calls = 5" | "calls = 6"
    | m where "calls = 7 + m"
    by blast
  then show ?thesis
  proof cases
    case 1 with Some show ?thesis
      by (simp add: processTransactions_def connect_def failing_def)
  next
    case 2 with Some show ?thesis
      by (simp add: processTransactions_def pass_body_def pass_reads_def pass_rest_def connect_def query_def
        rollback_on_error_def failing_def)
  next
    case 3 with Some show ?thesis
      by (simp add: processTransactions_def pass_body_def pass_reads_def pass_rest_def connect_def query_def
        rollback_on_error_def failing_def)
  next
    case 4 with Some show ?thesis
      by (simp add: processTransactions_def pass_body_def pass_reads_def pass_rest_def connect_def query_def
        rollback_on_error_def failing_def)
  next
    case 5 with Some s show ?thesis
      by (cases r5) (simp_all add: processTransactions_def pass_body_def pass_reads_def pass_rest_def connect_def query_def
        rollback_on_error_def failing_def Let_def)
  next
    case 6 with Some s show ?thesis
      by (cases r5) (simp_all add: processTransactions_def pass_body_def pass_reads_def pass_rest_def connect_def query_def
        rollback_on_error_def failing_def Let_def)
  next
    case 7 with Some s show ?thesis
      by (cases r5) (simp_all add: processTransactions_def pass_body_def pass_reads_def pass_rest_def connect_def query_def
        rollback_on_error_def failing_def Let_def)
  next
    case 8 with Some s show ?thesis
      by (cases r5) (simp_all add: processTransactions_def pass_body_def pass_reads_def pass_rest_def connect_def query_def
        rollback_on_error_def failing_def Let_def)
  qed
qed

lemma concat_batches: "concat (batches ds) = ds"
proof (induction ds rule: batches.induct)
  case (1 ds)
  show ?case
  proof (cases "ds = []")
    case True
    then show ?thesis by (subst batches.simps) simp
  next
    case False
    with 1 show ?thesis by (subst batches.simps) simp
  qed
qed

lemma batches_nonempty: "b \<in> set (batches ds) \<Longrightarrow> b \<noteq> [] \<and> length b \<le> BATCH_SIZE"
proof (induction ds rule: batches.induct)
  case (1 ds)
  show ?case
  proof (cases "ds = []")
    case True
    with "1.prems" show ?thesis by (subst (asm) batches.simps) simp
  next
    case False
    from "1.prems" False have "b = take BATCH_SIZE ds \<or> b \<in> set (batches (drop BATCH_SIZE ds))"
      by (subst (asm) batches.simps) simp
    with False "1.IH" show ?thesis by (auto simp: BATCH_SIZE_def)
  qed
qed

lemma batch_recipients_disjoint:
  assumes "distinct (map recipient (concat bs))" and "n < length bs"
  shows "recipient ` set (concat (take n bs)) \<inter> recipient ` set (bs ! n) = {}"
proof -
  have "bs = take n bs @ bs ! n # drop (Suc n) bs"
    using assms(2) by (simp add: id_take_nth_drop)
  then have "concat bs = concat (take n bs) @ bs ! n @ concat (drop (Suc n) bs)"
    by (metis concat.simps(2) concat_append)
  with assms(1) have "distinct (map recipient (concat (take n bs)) @ map recipient (bs ! n)
      @ map recipient (concat (drop (Suc n) bs)))"
    by simp
  then have "set (map recipient (concat (take n bs))) \<inter>
      set (map recipient (bs ! n) @ map recipient (concat (drop (Suc n) bs))) = {}"
    by (simp only: distinct_append)
  then have "set (map recipient (concat (take n bs))) \<inter> set (map recipient (bs ! n)) = {}"
    by (simp only: set_append) blast
  then show ?thesis by (simp only: set_map)
qed

lemma send_batches_outcome:
  assumes "send_batches env bi bs w = (r, w')"
  shows "transactions w' = transactions w \<and> coins w' = coins w \<and>
         transaction_tracker w' = transaction_tracker w \<and>
         (\<exists>new tr. fee_distributions w' = fee_distributions w @ new \<and>
            trace w' = trace w @ tr \<and>
            (\<forall>j. GaveUp j \<in> set tr \<longrightarrow>
               (\<exists>e. r = Inl e) \<and> bi \<le> j \<and> j < bi + length bs \<and>
               receiver_address ` set new \<subseteq> recipient ` set (concat (take (j - bi) bs))))"
  using assms
proof (induction bs arbitrary: bi w)
  case Nil
  then show ?case by simp
next
  case (Cons batch rest)
  obtain r1 w1 where loop: "retry_loop env bi batch 0 w = (r1, w1)"
    by (cases "retry_loop env bi batch 0 w") auto
  have o: "outcome bi batch r1 w w1"
    using retry_loop_outcome[OF loop] by (simp add: MAX_RETRIES_def)
  then obtain tr1 where tr1: "trace w1 = trace w @ tr1"
    "\<forall>j. GaveUp j \<in> set tr1 \<longrightarrow> j = bi \<and> (\<exists>e. r1 = Inl e)"
    unfolding outcome_def by blast
  from o have frame1: "transactions w1 = transactions w" "coins w1 = coins w"
    "transaction_tracker w1 = transaction_tracker w"
    unfolding outcome_def by simp_all
  show ?case
  proof (cases r1)
    case (Inl e)
    with loop Cons.prems have res: "r = Inl e" "w' = w1" by simp_all
    from o Inl have "fee_distributions w1 = fee_distributions w @ []"
      unfolding outcome_def by simp
    moreover have "\<forall>j. GaveUp j \<in> set tr1 \<longrightarrow>
               (\<exists>e. r = Inl e) \<and> bi \<le> j \<and> j < bi + length (batch # rest) \<and>
               receiver_address ` set [] \<subseteq> recipient ` set (concat (take (j - bi) (batch # rest)))"
      using tr1(2) res by auto
    ultimately show ?thesis using frame1 tr1(1) res by blast
  next
    case (Inr u)
    with loop Cons.prems have rest: "send_batches env (bi + 1) rest w1 = (r, w')" by simp
    from o Inr obtain sg where fd1:
      "fee_distributions w1 = fee_distributions w @ map (distribution_record sg) batch"
      unfolding outcome_def by auto
    from tr1(2) Inr have no1: "\<forall>j. GaveUp j \<notin> set tr1" by auto
    from Cons.IH[OF rest] obtain new tr2 where ih:
      "transactions w' = transactions w1" "coins w' = coins w1"
      "transaction_tracker w' = transaction_tracker w1"
      "fee_distributions w' = fee_distributions w1 @ new"
      "trace w' = trace w1 @ tr2"
      "\<forall>j. GaveUp j \<in> set tr2 \<longrightarrow>
               (\<exists>e. r = Inl e) \<and> bi + 1 \<le> j \<and> j < bi + 1 + length rest \<and>
               receiver_address ` set new \<subseteq> recipient ` set (concat (take (j - (bi + 1)) rest))"
      by blast
    have a: "fee_distributions w' = fee_distributions w @ (map (distribution_record sg) batch @ new)"
      using fd1 ih(4) by simp
    have b: "trace w' = trace w @ (tr1 @ tr2)"
      using tr1(1) ih(5) by simp
    have c: "\<forall>j. GaveUp j \<in> set (tr1 @ tr2) \<longrightarrow>
               (\<exists>e. r = Inl e) \<and> bi \<le> j \<and> j < bi + length (batch # rest) \<and>
               receiver_address ` set (map (distribution_record sg) batch @ new)
                 \<subseteq> recipient ` set (concat (take (j - bi) (batch # rest)))"
    proof (intro allI impI)
      fix j assume "GaveUp j \<in> set (tr1 @ tr2)"
      with no1 have "GaveUp j \<in> set tr2" by auto
      with ih(6) have g: "\<exists>e. r = Inl e" "bi + 1 \<le> j" "j < bi + 1 + length rest"
        "receiver_address ` set new \<subseteq> recipient ` set (concat (take (j - (bi + 1)) rest))"
        by auto
      from g(2) obtain m where m: "j - bi = Suc m" "j - (bi + 1) = m"
        by (metis Suc_diff_Suc Suc_eq_plus1 diff_diff_left less_eq_Suc_le)
      have "receiver_address ` set (map (distribution_record sg) batch) = recipient ` set batch"
        by (auto simp: distribution_record_def image_iff)
      moreover have "concat (take (j - bi) (batch # rest)) = batch @ concat (take m rest)"
        using m by simp
      moreover have "receiver_address ` set new \<subseteq> recipient ` set (concat (take m rest))"
        using g(4) m by simp
      ultimately have "receiver_address ` set (map (distribution_record sg) batch @ new)
                 \<subseteq> recipient ` set (concat (take (j - bi) (batch # rest)))"
        by (simp only: set_append image_Un set_map) blast
      with g show "(\<exists>e. r = Inl e) \<and> bi \<le> j \<and> j < bi + length (batch # rest) \<and>
               receiver_address ` set (map (distribution_record sg) batch @ new)
                 \<subseteq> recipient ` set (concat (take (j - bi) (batch # rest)))"
        by simp
    qed
    from a b c frame1 ih(1-3) show ?thesis by (metis (no_types, lifting))
  qed
qed

lemma sendSolanaTransactions_batches:
  "rows = accumulated_fees w0 c \<Longrightarrow> rows \<noteq> [] \<Longrightarrow>
   sendSolanaTransactions env rows w = send_batches env 0 (batches rows) w"
  by (simp add: sendSolanaTransactions_def js_filter_id)

lemma sendSolanaTransactions_frame:
  assumes "sendSolanaTransactions env ds w = (r, w')"
  shows "transactions w' = transactions w \<and> coins w' = coins w \<and>
         transaction_tracker w' = transaction_tracker w"
proof (cases "filter (\<lambda>d. MIN_AMOUNT_THRESHOLD \<le> amount d) ds = []")
  case True
  with assms show ?thesis by (auto simp: sendSolanaTransactions_def)
next
  case False
  with assms have "send_batches env 0 (batches (filter (\<lambda>d. MIN_AMOUNT_THRESHOLD \<le> amount d) ds)) w = (r, w')"
    by (simp add: sendSolanaTransactions_def)
  from send_batches_outcome[OF this] show ?thesis by blast
qed


section \<open>The cursor\<close>

lemma max_id_Max: "ts \<noteq> [] \<Longrightarrow> max_id ts = Some (Max (tx_id ` set ts))"
proof (induction ts)
  case Nil
  then show ?case by simp
next
  case (Cons t ts)
  show ?case
  proof (cases "ts = []")
    case True
    then show ?thesis by simp
  next
    case False
    with Cons.IH have "max_id ts = Some (Max (tx_id ` set ts))" by simp
    moreover have "Max (tx_id ` set (t # ts)) = max (tx_id t) (Max (tx_id ` set ts))"
      using False by (simp add: Max_insert)
    ultimately show ?thesis by simp
  qed
qed

lemma max_id_filter_above:
  assumes "t \<in> set ts" and "c < tx_id t"
  shows "max_id (filter (\<lambda>t. c < tx_id t) ts) = max_id ts"
proof -
  let ?A = "tx_id ` set (filter (\<lambda>t. c < tx_id t) ts)"
  let ?B = "tx_id ` set ts"
  from assms have ne: "filter (\<lambda>t. c < tx_id t) ts \<noteq> []" "ts \<noteq> []"
    by (auto simp: filter_empty_conv)
  have fin: "finite ?A" "finite ?B" by simp_all
  have sub: "?A \<subseteq> ?B" by auto
  have inA: "tx_id t \<in> ?A" using assms by auto
  have "Max ?B \<in> ?B" using fin ne by (intro Max_in) auto
  moreover have "tx_id t \<le> Max ?B" using assms by (intro Max_ge) auto
  ultimately have "Max ?B \<in> ?A" using assms(2) by auto
  then have "Max ?B \<le> Max ?A" using fin by (intro Max_ge) auto
  moreover have "Max ?A \<le> Max ?B" using sub inA fin by (intro Max_mono) auto
  ultimately have "Max ?A = Max ?B" by (rule antisym[rotated])
  moreover have "max_id (filter (\<lambda>t. c < tx_id t) ts) = Some (Max ?A)"
    using ne(1) by (rule max_id_Max)
  moreover have "max_id ts = Some (Max ?B)"
    using ne(2) by (rule max_id_Max)
  ultimately show ?thesis by simp
qed

lemma max_id_append_ge:
  assumes "ts \<noteq> []"
  shows "\<exists>m n. max_id ts = Some m \<and> max_id (ts @ us) = Some n \<and> m \<le> n"
proof -
  have "Max (tx_id ` set ts) \<le> Max (tx_id ` set (ts @ us))"
    using assms by (intro Max_mono) auto
  with assms show ?thesis by (simp add: max_id_Max)
qed

lemma rows_have_event:
  assumes "accumulated_fees w c \<noteq> []"
  shows "\<exists>t \<in> set (transactions w). c < tx_id t"
proof -
  from assms obtain d where "d \<in> set (accumulated_fees w c)"
    by (cases "accumulated_fees w c") auto
  then have "recipient d \<in> fst ` set (joined w c)"
    by (simp add: accumulated_fees_set)
  then show ?thesis by (auto simp: recipients_joined)
qed

section \<open>Recipients of a batch\<close>

lemma batch_distinct:
  assumes "batch \<in> set (batches (accumulated_fees w0 c))"
  shows "distinct (map recipient batch)"
proof -
  have "distinct (map recipient (concat (batches (accumulated_fees w0 c))))"
    by (simp only: concat_batches accumulated_fees_distinct)
  then have "distinct (concat (map (map recipient) (batches (accumulated_fees w0 c))))"
    by (simp only: map_concat)
  then have "\<forall>ys \<in> set (map (map recipient) (batches (accumulated_fees w0 c))). distinct ys"
    by (simp only: distinct_concat_iff) simp
  with assms show ?thesis by simp
qed

lemma batch_amounts:
  assumes "batch \<in> set (batches (accumulated_fees w0 c))" and "d \<in> set batch"
  shows "1 / 1000 \<le> amount d"
proof -
  from assms have "d \<in> set (concat (batches (accumulated_fees w0 c)))" by auto
  then have "d \<in> set (accumulated_fees w0 c)" by (simp only: concat_batches)
  then show ?thesis by (simp add: accumulated_fees_set HAVING_THRESHOLD_def)
qed

lemma amounts_for_stranger:
  assumes "a \<notin> recipient ` set batch"
  shows "[amount d'. d' \<leftarrow> batch, recipient d' = a] = []"
  using assms by (induction batch) auto

lemma amounts_for_recipient:
  assumes "distinct (map recipient batch)" and "d \<in> set batch"
  shows "[amount d'. d' \<leftarrow> batch, recipient d' = recipient d] = [amount d]"
  using assms
proof (induction batch)
  case Nil
  then show ?case by simp
next
  case (Cons x batch)
  show ?case
  proof (cases "x = d")
    case True
    with Cons.prems have "recipient d \<notin> recipient ` set batch" by simp
    from amounts_for_stranger[OF this] True show ?thesis by simp
  next
    case False
    with Cons.prems have "d \<in> set batch" "recipient x \<noteq> recipient d" by auto
    with Cons show ?thesis by simp
  qed
qed

lemma credited_recipient:
  assumes "distinct (map recipient batch)" and "d \<in> set batch"
    and "wallet_address u = recipient d"
  shows "credited batch u = u\<lparr>fees_claimed_so_far := fees_claimed_so_far u + amount d\<rparr>"
proof -
  have "sum_list [amount d'. d' \<leftarrow> batch, recipient d' = wallet_address u] = amount d"
    unfolding assms(3) amounts_for_recipient[OF assms(1,2)] by simp
  then show ?thesis unfolding credited_def by (simp only:)
qed

lemma credited_stranger:
  assumes "wallet_address u \<notin> recipient ` set batch"
  shows "credited batch u = u"
proof -
  have "sum_list [amount d'. d' \<leftarrow> batch, recipient d' = wallet_address u] = 0"
    unfolding amounts_for_stranger[OF assms] by simp
  then show ?thesis unfolding credited_def by (simp only:) simp
qed

lemma one_record_each:
  assumes "distinct (map recipient batch)" and "d \<in> set batch"
  shows "length (filter (\<lambda>row. receiver_address row = recipient d)
           (map (distribution_record sg) batch)) = 1"
proof -
  have "length (filter (\<lambda>row. receiver_address row = a) (map (distribution_record sg) b)) =
        length [amount d'. d' \<leftarrow> b, recipient d' = a]" for a b
    by (induction b) (auto simp: distribution_record_def)
  with amounts_for_recipient[OF assms] show ?thesis by simp
qed


section \<open>The trace of the retry loop\<close>

lemma attempts_made_simps [simp]:
  "attempts_made bi [] = 0"
  "attempts_made bi (Attempt bi k # tr) = Suc (attempts_made bi tr)"
  "attempts_made bi (Sleep ms # tr) = attempts_made bi tr"
  "attempts_made bi (BatchSuccessful b sg # tr) = attempts_made bi tr"
  "attempts_made bi (GaveUp b # tr) = attempts_made bi tr"
  "attempts_made bi (tr @ tr') = attempts_made bi tr + attempts_made bi tr'"
  by (simp_all add: attempts_made_def)

lemma paced_simps [simp]:
  "paced []"
  "paced (Attempt b k # tr) = paced tr"
  "paced (Sleep ms # tr) = (ms = RETRY_DELAY \<and> paced tr)"
  "paced (BatchSuccessful b sg # tr) = paced tr"
  "paced (GaveUp b # tr) = paced tr"
  "paced (tr @ tr') = (paced tr \<and> paced tr')"
  by (simp_all add: paced_def)

lemma submit_and_record_trace:
  assumes "submit_and_record a bi batch w = (r, w')"
  shows "\<exists>tr. trace w' = trace w @ tr \<and> attempts_made bi tr = 0 \<and> paced tr"
proof (cases "net a")
  case (Confirmed bh sg)
  with assms have "trace w' = trace w @ [BatchSuccessful bi sg]"
    by (auto simp: submit_and_record_eq split: if_splits)
  then show ?thesis by simp
qed (use assms in \<open>auto simp: submit_and_record_eq split: if_splits\<close>)

lemma retry_loop_trace:
  assumes "retry_loop env bi batch k w = (r, w')" and "k < MAX_RETRIES"
  shows "\<exists>tr. trace w' = trace w @ tr \<and> attempts_made bi tr \<le> MAX_RETRIES - k \<and> paced tr"
  using assms
proof (induction env bi batch k w rule: retry_loop.induct)
  case (1 env bi batch k w)
  let ?w0 = "w\<lparr>trace := trace w @ [Attempt bi k]\<rparr>"
  show ?case
  proof (cases "find (\<lambda>d. \<not> valid_pubkey env (recipient d)) batch")
    case (Some d)
    with "1.prems" have "trace w' = trace w @ [Attempt bi k]"
      by (auto simp: retry_loop_invalid)
    moreover have "attempts_made bi [Attempt bi k] \<le> MAX_RETRIES - k"
      using "1.prems"(2) by simp
    ultimately show ?thesis by (intro exI[of _ "[Attempt bi k]"]) simp
  next
    case None
    obtain r1 w1 where body: "submit_and_record (attempts env bi k) bi batch ?w0 = (r1, w1)"
      by (cases "submit_and_record (attempts env bi k) bi batch ?w0") auto
    from submit_and_record_trace[OF body] obtain tr1 where
      t1: "trace w1 = trace w @ [Attempt bi k] @ tr1" "attempts_made bi tr1 = 0" "paced tr1"
      by auto
    show ?thesis
    proof (cases r1)
      case (Inr u)
      with body None "1.prems" have "w' = w1" by (auto simp: retry_loop_success)
      with t1 "1.prems"(2) show ?thesis
        by (intro exI[of _ "[Attempt bi k] @ tr1"]) simp
    next
      case (Inl e)
      note step = retry_loop_step[OF "1.prems"(2) None body[unfolded Inl]]
      show ?thesis
      proof (cases "k + 1 < MAX_RETRIES")
        case False
        with step "1.prems" have "w' = w1\<lparr>trace := trace w1 @ [GaveUp bi]\<rparr>" by auto
        with t1 "1.prems"(2) show ?thesis
          by (intro exI[of _ "[Attempt bi k] @ tr1 @ [GaveUp bi]"]) simp
      next
        case True
        let ?w2 = "w1\<lparr>trace := trace w1 @ [Sleep RETRY_DELAY]\<rparr>"
        from True step "1.prems" have rec: "retry_loop env bi batch (k + 1) ?w2 = (r, w')"
          by simp
        from "1.IH"[OF "1.prems"(2) None body[symmetric] Inl True rec True]
        obtain tr2 where t2: "trace w' = trace ?w2 @ tr2"
          "attempts_made bi tr2 \<le> MAX_RETRIES - (k + 1)" "paced tr2"
          by auto
        from t1 t2 True show ?thesis
          by (intro exI[of _ "[Attempt bi k] @ tr1 @ [Sleep RETRY_DELAY] @ tr2"]) simp
      qed
    qed
  qed
qed

lemma submit_and_record_no_give_up:
  assumes "submit_and_record a bi batch w = (r, w')"
  shows "\<exists>tr. trace w' = trace w @ tr \<and> attempts_made bi tr = 0 \<and> GaveUp bi \<notin> set tr"
proof (cases "net a")
  case (Confirmed bh sg)
  with assms have "trace w' = trace w @ [BatchSuccessful bi sg]"
    by (auto simp: submit_and_record_eq split: if_splits)
  then show ?thesis by simp
qed (use assms in \<open>auto simp: submit_and_record_eq split: if_splits\<close>)

lemma gave_up_after_three_attempts:
  assumes "retry_loop env bi batch k w = (r, w')" and "k < MAX_RETRIES"
    and "GaveUp bi \<in> set (drop (length (trace w)) (trace w'))"
  shows "attempts_made bi (drop (length (trace w)) (trace w')) = MAX_RETRIES - k"
  using assms
proof (induction env bi batch k w rule: retry_loop.induct)
  case (1 env bi batch k w)
  let ?w0 = "w\<lparr>trace := trace w @ [Attempt bi k]\<rparr>"
  show ?case
  proof (cases "find (\<lambda>d. \<not> valid_pubkey env (recipient d)) batch")
    case (Some d)
    with "1.prems" show ?thesis by (auto simp: retry_loop_invalid)
  next
    case None
    obtain r1 w1 where body: "submit_and_record (attempts env bi k) bi batch ?w0 = (r1, w1)"
      by (cases "submit_and_record (attempts env bi k) bi batch ?w0") auto
    from submit_and_record_no_give_up[OF body] obtain tr1 where
      t1: "trace w1 = trace w @ [Attempt bi k] @ tr1" "attempts_made bi tr1 = 0"
        "GaveUp bi \<notin> set tr1"
      by auto
    show ?thesis
    proof (cases r1)
      case (Inr u)
      with body None "1.prems" have "w' = w1" by (auto simp: retry_loop_success)
      with t1 "1.prems"(3) show ?thesis by simp
    next
      case (Inl e)
      note step = retry_loop_step[OF "1.prems"(2) None body[unfolded Inl]]
      show ?thesis
      proof (cases "k + 1 < MAX_RETRIES")
        case False
        with step "1.prems" have "w' = w1\<lparr>trace := trace w1 @ [GaveUp bi]\<rparr>" by auto
        with t1 have "drop (length (trace w)) (trace w') = [Attempt bi k] @ tr1 @ [GaveUp bi]"
          by simp
        with t1(2) False "1.prems"(2) show ?thesis by simp
      next
        case True
        let ?w2 = "w1\<lparr>trace := trace w1 @ [Sleep RETRY_DELAY]\<rparr>"
        from True step "1.prems" have rec: "retry_loop env bi batch (k + 1) ?w2 = (r, w')"
          by simp
        from retry_loop_trace[OF rec True] obtain tr2 where
          t2: "trace w' = trace ?w2 @ tr2" by blast
        with t1 have whole: "drop (length (trace w)) (trace w') =
            [Attempt bi k] @ tr1 @ [Sleep RETRY_DELAY] @ tr2"
          and later: "drop (length (trace ?w2)) (trace w') = tr2"
          by simp_all
        from "1.prems"(3) whole t1(3) have "GaveUp bi \<in> set tr2" by auto
        with later have "GaveUp bi \<in> set (drop (length (trace ?w2)) (trace w'))" by simp
        from "1.IH"[OF "1.prems"(2) None body[symmetric] Inl True rec True this] later
        have "attempts_made bi tr2 = MAX_RETRIES - (k + 1)" by simp
        with whole t1(2) True show ?thesis by simp
      qed
    qed
  qed
qed

lemma submit_and_record_foreign:
  assumes "submit_and_record a j batch w = (r, w')"
  shows "\<exists>tr. trace w' = trace w @ tr \<and> attempts_made bi tr = 0"
proof (cases "net a")
  case (Confirmed bh sg)
  with assms have "trace w' = trace w @ [BatchSuccessful j sg]"
    by (auto simp: submit_and_record_eq split: if_splits)
  then show ?thesis by simp
qed (use assms in \<open>auto simp: submit_and_record_eq split: if_splits\<close>)

lemma attempts_made_other [simp]:
  "j \<noteq> bi \<Longrightarrow> attempts_made bi (Attempt j k # tr) = attempts_made bi tr"
  by (simp add: attempts_made_def)

lemma retry_loop_foreign:
  assumes "retry_loop env j batch k w = (r, w')" and "k < MAX_RETRIES" and "j \<noteq> bi"
  shows "attempts_made bi (drop (length (trace w)) (trace w')) = 0"
  using assms
proof (induction env j batch k w rule: retry_loop.induct)
  case (1 env j batch k w)
  let ?w0 = "w\<lparr>trace := trace w @ [Attempt j k]\<rparr>"
  show ?case
  proof (cases "find (\<lambda>d. \<not> valid_pubkey env (recipient d)) batch")
    case (Some d)
    with "1.prems" show ?thesis by (auto simp: retry_loop_invalid)
  next
    case None
    obtain r1 w1 where body: "submit_and_record (attempts env j k) j batch ?w0 = (r1, w1)"
      by (cases "submit_and_record (attempts env j k) j batch ?w0") auto
    from submit_and_record_foreign[OF body, of bi] obtain tr1 where
      t1: "trace w1 = trace w @ [Attempt j k] @ tr1" "attempts_made bi tr1 = 0"
      by auto
    show ?thesis
    proof (cases r1)
      case (Inr u)
      with body None "1.prems" have "w' = w1" by (auto simp: retry_loop_success)
      with t1 "1.prems"(3) show ?thesis by simp
    next
      case (Inl e)
      note step = retry_loop_step[OF "1.prems"(2) None body[unfolded Inl]]
      show ?thesis
      proof (cases "k + 1 < MAX_RETRIES")
        case False
        with step "1.prems" have "w' = w1\<lparr>trace := trace w1 @ [GaveUp j]\<rparr>" by auto
        with t1 "1.prems"(3) show ?thesis by simp
      next
        case True
        let ?w2 = "w1\<lparr>trace := trace w1 @ [Sleep RETRY_DELAY]\<rparr>"
        from True step "1.prems" have rec: "retry_loop env j batch (k + 1) ?w2 = (r, w')"
          by simp
        from retry_loop_trace[OF rec True] obtain tr2 where
          t2: "trace w' = trace ?w2 @ tr2" by blast
        with t1 have whole: "drop (length (trace w)) (trace w') =
            [Attempt j k] @ tr1 @ [Sleep RETRY_DELAY] @ tr2"
          and later: "drop (length (trace ?w2)) (trace w') = tr2"
          by simp_all
        from "1.IH"[OF "1.prems"(2) None body[symmetric] Inl True rec True "1.prems"(3)] later
        have "attempts_made bi tr2 = 0" by simp
        with whole t1(2) "1.prems"(3) show ?thesis by simp
      qed
    qed
  qed
qed

lemma send_batches_three_attempts:
  assumes "send_batches env b0 bs w = (r, w')"
    and "GaveUp bi \<in> set (drop (length (trace w)) (trace w'))"
  shows "attempts_made bi (drop (length (trace w)) (trace w')) = MAX_RETRIES"
  using assms
proof (induction bs arbitrary: b0 w)
  case Nil
  then show ?case by simp
next
  case (Cons batch rest)
  obtain r1 w1 where loop: "retry_loop env b0 batch 0 w = (r1, w1)"
    by (cases "retry_loop env b0 batch 0 w") auto
  have lt: "0 < MAX_RETRIES" by (simp add: MAX_RETRIES_def)
  from retry_loop_outcome[OF loop lt] obtain tr1 where tr1: "trace w1 = trace w @ tr1"
    "\<forall>j. GaveUp j \<in> set tr1 \<longrightarrow> j = b0 \<and> (\<exists>e. r1 = Inl e)"
    unfolding outcome_def by blast
  then have d1: "drop (length (trace w)) (trace w1) = tr1" by simp
  show ?case
  proof (cases r1)
    case (Inl e)
    with loop Cons.prems(1) have "w' = w1" by simp
    with Cons.prems(2) d1 tr1(2) have "bi = b0" by auto
    with gave_up_after_three_attempts[OF loop lt] Cons.prems(2) \<open>w' = w1\<close>
    show ?thesis by simp
  next
    case (Inr u)
    with loop Cons.prems(1) have rest: "send_batches env (b0 + 1) rest w1 = (r, w')" by simp
    from send_batches_outcome[OF rest] obtain tr2 where tr2: "trace w' = trace w1 @ tr2"
      "\<forall>j. GaveUp j \<in> set tr2 \<longrightarrow> b0 + 1 \<le> j"
      by blast
    with tr1 have whole: "drop (length (trace w)) (trace w') = tr1 @ tr2"
      and later: "drop (length (trace w1)) (trace w') = tr2"
      by simp_all
    from tr1(2) Inr have "GaveUp bi \<notin> set tr1" by auto
    with Cons.prems(2) whole have g: "GaveUp bi \<in> set tr2" by auto
    with tr2(2) have "b0 \<noteq> bi" by auto
    from retry_loop_foreign[OF loop lt this] d1 have "attempts_made bi tr1 = 0" by simp
    moreover from Cons.IH[OF rest] g later have "attempts_made bi tr2 = MAX_RETRIES" by simp
    ultimately show ?thesis using whole by simp
  qed
qed

section \<open>Passes in flight\<close>

lemma pass_reads_eq:
  "pass_reads \<lparr>fault = f, staged = None\<rparr> w =
     (if failing f 2 then (Inl DatabaseError, \<lparr>fault = None, staged = (if f = Some 0 then None else Some [])\<rparr>, w)
      else (Inr (accumulated_fees w (cursor_param (maxTransactionId w))),
            \<lparr>fault = map_option (\<lambda>n. n - 3) f, staged = Some []\<rparr>, w))"
proof (cases f)
  case None
  then show ?thesis by (simp add: pass_reads_def query_def failing_def)
next
  case (Some calls)
  have "calls = 0 \<or> calls = 1 \<or> calls = 2 \<or> (\<exists>m. calls = 3 + m)" by presburger
  then consider "calls = 0" | "calls = 1" | "calls = 2" | m where "calls = 3 + m" by blast
  then show ?thesis
    using Some by cases (simp_all add: pass_reads_def query_def failing_def)
qed

lemma pass_alone:
  "db (resume 0 (handleCron env \<lparr>db = w, in_flight = []\<rparr>)) = snd (processTransactions env w)"
proof (cases "connect (outer_fault env)")
  case (Inl e)
  then show ?thesis by (simp add: handleCron_def resume_def processTransactions_def)
next
  case (Inr c)
  obtain r c' w' where reads: "pass_reads c w = (r, c', w')"
    by (cases "pass_reads c w") auto
  show ?thesis
  proof (cases r)
    case (Inl e)
    with Inr reads show ?thesis
      by (simp add: handleCron_def resume_def processTransactions_def pass_body_def
          rollback_on_error_def split: prod.splits)
  next
    case rows: (Inr rows)
    with Inr reads show ?thesis
      by (simp add: handleCron_def resume_def processTransactions_def pass_body_def)
  qed
qed

section \<open>Claims\<close>

text \<open>
  C1 (as amended). A pass that aggregates at least one row and succeeds appends to the
  tracker the maximum id of the whole \<^verbatim>\<open>transactions\<close> table as read again after the
  transfers: the rows that arrived meanwhile count. That value is never below
  \<open>observedMaxId\<close>, and equals it when no row has arrived during the pass.
\<close>

theorem C1_cursor_is_reread_maximum:
  assumes "processTransactions env w = (Inr (), w')"
    and "accumulated_fees w (cursor_param (maxTransactionId w)) \<noteq> []"
  shows "transaction_tracker w' =
           transaction_tracker w @ [max_id (transactions w @ arrivals env)]
       \<and> maxTransactionId w' = max_id (transactions w @ arrivals env)
       \<and> (\<exists>m n. observedMaxId w = Some m \<and> maxTransactionId w' = Some n \<and> m \<le> n)
       \<and> (arrivals env = [] \<longrightarrow> maxTransactionId w' = observedMaxId w)"
proof -
  let ?rows = "accumulated_fees w (cursor_param (maxTransactionId w))"
  let ?w4 = "w\<lparr>transactions := transactions w @ arrivals env\<rparr>"
  obtain r5 w5 where s: "sendSolanaTransactions env ?rows ?w4 = (r5, w5)"
    by (cases "sendSolanaTransactions env ?rows ?w4") auto
  from sendSolanaTransactions_frame[OF s]
  have frame: "transactions w5 = transactions w @ arrivals env"
    "transaction_tracker w5 = transaction_tracker w"
    by simp_all
  from assms s have w': "w' = w5\<lparr>transaction_tracker :=
      transaction_tracker w5 @ [max_id (transactions w5)]\<rparr>"
    by (cases r5) (auto simp: processTransactions_eq Let_def split: if_splits)
  with frame have tracker: "transaction_tracker w' =
      transaction_tracker w @ [max_id (transactions w @ arrivals env)]"
    by simp
  then have latest: "maxTransactionId w' = max_id (transactions w @ arrivals env)"
    by (simp add: maxTransactionId_def)
  from rows_have_event[OF assms(2)] obtain t where
    t: "t \<in> set (transactions w)" "cursor_param (maxTransactionId w) < tx_id t"
    by blast
  then have obs: "observedMaxId w = max_id (transactions w)"
    unfolding observedMaxId_def by (rule max_id_filter_above)
  from t have "transactions w \<noteq> []" by auto
  from max_id_append_ge[OF this, of "arrivals env"] obs latest
  have "\<exists>m n. observedMaxId w = Some m \<and> maxTransactionId w' = Some n \<and> m \<le> n"
    by simp
  moreover from obs latest have "arrivals env = [] \<longrightarrow> maxTransactionId w' = observedMaxId w"
    by simp
  ultimately show ?thesis using tracker latest by blast
qed

text \<open>C1 as stated fails when an event arrives during the pass: the committed cursor is 3, the evaluated events end at 2.\<close>

theorem C1_counterexample:
  "fst (processTransactions
         ((first_then confirmed1 confirmed1)
            \<lparr>arrivals := [\<lparr>tx_id = 3, coin_id = ''MintA'', sol_quantity = 5\<rparr>]\<rparr>)
         example_world) = Inr ()
   \<and> observedMaxId example_world = Some 2
   \<and> maxTransactionId (snd (processTransactions
         ((first_then confirmed1 confirmed1)
            \<lparr>arrivals := [\<lparr>tx_id = 3, coin_id = ''MintA'', sol_quantity = 5\<rparr>]\<rparr>)
         example_world)) = Some 3
   \<and> fee_distributions (snd (processTransactions
         ((first_then confirmed1 confirmed1)
            \<lparr>arrivals := [\<lparr>tx_id = 3, coin_id = ''MintA'', sol_quantity = 5\<rparr>]\<rparr>)
         example_world)) =
       [\<lparr>receiver_address = ''WalletA'', transaction_hash = ''sig1'', fd_amount = 1 / 50\<rparr>]"
  by code_simp

theorem C1_witness:
  "maxTransactionId (snd (processTransactions (first_then confirmed1 confirmed1) example_world))
     = Some 2
   \<and> observedMaxId example_world = Some 2"
proof -
  let ?env = "first_then confirmed1 confirmed1"
  have "fst (processTransactions ?env example_world) = Inr ()" by code_simp
  then have run: "processTransactions ?env example_world =
      (Inr (), snd (processTransactions ?env example_world))"
    by (metis prod.collapse)
  have rows: "accumulated_fees example_world (cursor_param (maxTransactionId example_world)) \<noteq> []"
    by code_simp
  have "arrivals ?env = []" by (simp add: first_then_def)
  with C1_cursor_is_reread_maximum[OF run rows]
  have "maxTransactionId (snd (processTransactions ?env example_world)) = observedMaxId example_world"
    by blast
  moreover have "observedMaxId example_world = Some 2" by code_simp
  ultimately show ?thesis by simp
qed

text \<open>
  C2. The claim fails on the code. In the example world the first creator is paid and the
  second creator's event 2 stays under the threshold; the pass commits cursor 2 and
  writes nothing for that event. A later event 3 of the same creator is then aggregated
  alone and stays under the threshold, while events 2 and 3 together would reach it.
\<close>

theorem C2_subthreshold_events_are_skipped:
  "fst (processTransactions (first_then confirmed1 confirmed1) example_world) = Inr ()
   \<and> transaction_tracker (snd (processTransactions (first_then confirmed1 confirmed1) example_world))
       = [Some 2]
   \<and> fee_distributions (snd (processTransactions (first_then confirmed1 confirmed1) example_world))
       = [\<lparr>receiver_address = ''WalletA'', transaction_hash = ''sig1'', fd_amount = 1 / 50\<rparr>]
   \<and> accumulated_fees
        ((snd (processTransactions (first_then confirmed1 confirmed1) example_world))
           \<lparr>transactions := transactions example_world @
              [\<lparr>tx_id = 3, coin_id = ''MintB'', sol_quantity = 4 / 10\<rparr>]\<rparr>)
        (cursor_param (Some 2)) = []
   \<and> accumulated_fees
        (example_world
           \<lparr>transactions := transactions example_world @
              [\<lparr>tx_id = 3, coin_id = ''MintB'', sol_quantity = 4 / 10\<rparr>]\<rparr>)
        1 = [\<lparr>recipient = ''WalletB'', amount = 1 / 1000\<rparr>]"
  by code_simp

text \<open>
  C3 (as amended). When the local write fails after a confirmed transfer, the tables are
  left as they were and the failure counts as a failed attempt like any other: with
  attempts left the loop waits two seconds and runs the whole iteration again, which
  builds and submits the batch anew; otherwise the error is rethrown. When that next
  transfer is confirmed and its write succeeds, two transfers of the batch are posted
  and the rows carry the second signature.
\<close>

theorem C3_local_write_failure_resubmits:
  assumes "retryCount < MAX_RETRIES"
    and "find (\<lambda>d. \<not> valid_pubkey env (recipient d)) batch = None"
    and "net (attempts env bi retryCount) = Confirmed bh sg"
    and "failing (db_fault (attempts env bi retryCount)) (2 * length batch + 2)"
  shows "retry_loop env bi batch retryCount w =
           (if retryCount + 1 < 3
            then retry_loop env bi batch (retryCount + 1)
                   (w\<lparr>posted := posted w @ [(sg, transaction bh batch)],
                      trace := trace w @ [Attempt bi retryCount, BatchSuccessful bi sg, Sleep 2000]\<rparr>)
            else (Inl DatabaseError,
                  w\<lparr>posted := posted w @ [(sg, transaction bh batch)],
                    trace := trace w @ [Attempt bi retryCount, BatchSuccessful bi sg, GaveUp bi]\<rparr>))
       \<and> (retryCount + 1 < 3 \<and>
          net (attempts env bi (retryCount + 1)) = Confirmed bh' sg' \<and>
          \<not> failing (db_fault (attempts env bi (retryCount + 1))) (2 * length batch + 2) \<longrightarrow>
            (\<exists>w'. retry_loop env bi batch retryCount w = (Inr (), w') \<and>
               posted w' = posted w @ [(sg, transaction bh batch), (sg', transaction bh' batch)] \<and>
               fee_distributions w' = fee_distributions w @
                 map (\<lambda>d. \<lparr>receiver_address = recipient d, transaction_hash = sg',
                            fd_amount = amount d\<rparr>) batch))"
proof -
  let ?w0 = "w\<lparr>trace := trace w @ [Attempt bi retryCount]\<rparr>"
  let ?w1 = "w\<lparr>posted := posted w @ [(sg, transaction bh batch)],
               trace := trace w @ [Attempt bi retryCount, BatchSuccessful bi sg]\<rparr>"
  let ?w2 = "w\<lparr>posted := posted w @ [(sg, transaction bh batch)],
               trace := trace w @ [Attempt bi retryCount, BatchSuccessful bi sg, Sleep 2000]\<rparr>"
  have body: "submit_and_record (attempts env bi retryCount) bi batch ?w0 = (Inl DatabaseError, ?w1)"
    using assms(3,4) by (simp add: submit_and_record_eq)
  have first: "retry_loop env bi batch retryCount w =
           (if retryCount + 1 < 3 then retry_loop env bi batch (retryCount + 1) ?w2
            else (Inl DatabaseError,
                  w\<lparr>posted := posted w @ [(sg, transaction bh batch)],
                    trace := trace w @ [Attempt bi retryCount, BatchSuccessful bi sg, GaveUp bi]\<rparr>))"
    using retry_loop_step[OF assms(1,2) body] by (simp add: MAX_RETRIES_def RETRY_DELAY_def)
  have second: "\<exists>w'. retry_loop env bi batch retryCount w = (Inr (), w') \<and>
               posted w' = posted w @ [(sg, transaction bh batch), (sg', transaction bh' batch)] \<and>
               fee_distributions w' = fee_distributions w @
                 map (\<lambda>d. \<lparr>receiver_address = recipient d, transaction_hash = sg',
                            fd_amount = amount d\<rparr>) batch"
    if more: "retryCount + 1 < 3"
      and next_ok: "net (attempts env bi (retryCount + 1)) = Confirmed bh' sg'"
        "\<not> failing (db_fault (attempts env bi (retryCount + 1))) (2 * length batch + 2)"
  proof -
    let ?w3 = "?w2\<lparr>trace := trace ?w2 @ [Attempt bi (retryCount + 1)]\<rparr>"
    obtain w' where again: "submit_and_record (attempts env bi (retryCount + 1)) bi batch ?w3
        = (Inr (), w')"
      and w': "posted w' = posted ?w3 @ [(sg', transaction bh' batch)]"
        "fee_distributions w' = fee_distributions ?w3 @ map (distribution_record sg') batch"
      using next_ok by (simp add: submit_and_record_eq)
    from more have "retryCount + 1 < MAX_RETRIES" by (simp add: MAX_RETRIES_def)
    from retry_loop_success[OF this assms(2) again] first more
    have "retry_loop env bi batch retryCount w = (Inr (), w')" by simp
    with w' show ?thesis by (simp add: distribution_record_def[abs_def])
  qed
  from first second show ?thesis by blast
qed

text \<open>C3 as stated fails: the write of the first confirmed transfer fails, and a second transfer is posted.\<close>

theorem C3_counterexample:
  "fst (processTransactions (first_then failed_write confirmed2) example_world) = Inr ()
   \<and> posted (snd (processTransactions (first_then failed_write confirmed2) example_world)) =
       [(''sig1'', \<lparr>instructions = [\<lparr>toPubkey = ''WalletA'', lamports = 19800000\<rparr>],
                    recentBlockhash = ''hash1''\<rparr>),
        (''sig2'', \<lparr>instructions = [\<lparr>toPubkey = ''WalletA'', lamports = 19800000\<rparr>],
                    recentBlockhash = ''hash2''\<rparr>)]
   \<and> fee_distributions (snd (processTransactions (first_then failed_write confirmed2) example_world)) =
       [\<lparr>receiver_address = ''WalletA'', transaction_hash = ''sig2'', fd_amount = 1 / 50\<rparr>]"
  by code_simp

theorem C3_witness:
  "\<exists>w'. retry_loop (first_then failed_write confirmed2) 0
           [\<lparr>recipient = ''WalletA'', amount = 1 / 50\<rparr>] 0 example_world = (Inr (), w')
        \<and> posted w' =
            [(''sig1'', transaction ''hash1'' [\<lparr>recipient = ''WalletA'', amount = 1 / 50\<rparr>]),
             (''sig2'', transaction ''hash2'' [\<lparr>recipient = ''WalletA'', amount = 1 / 50\<rparr>])]"
proof -
  let ?env = "first_then failed_write confirmed2"
  let ?batch = "[\<lparr>recipient = ''WalletA'', amount = 1 / 50\<rparr>]"
  have 1: "0 < MAX_RETRIES" by (simp add: MAX_RETRIES_def)
  have 2: "find (\<lambda>d. \<not> valid_pubkey ?env (recipient d)) ?batch = None"
    by (simp add: first_then_def)
  have 3: "net (attempts ?env 0 0) = Confirmed ''hash1'' ''sig1''"
    by (simp add: first_then_def failed_write_def)
  have 4: "failing (db_fault (attempts ?env 0 0)) (2 * length ?batch + 2)"
    by (simp add: first_then_def failed_write_def failing_def)
  have 5: "net (attempts ?env 0 (0 + 1)) = Confirmed ''hash2'' ''sig2''"
    "\<not> failing (db_fault (attempts ?env 0 (0 + 1))) (2 * length ?batch + 2)"
    by (simp_all add: first_then_def confirmed2_def failing_def)
  have 6: "posted example_world = []" by (simp add: example_world_def)
  have 7: "(0::nat) + 1 < 3" by simp
  from C3_local_write_failure_resubmits[OF 1 2 3 4, of example_world "''hash2''" "''sig2''"]
  have "(0::nat) + 1 < 3 \<and> net (attempts ?env 0 (0 + 1)) = Confirmed ''hash2'' ''sig2'' \<and>
        \<not> failing (db_fault (attempts ?env 0 (0 + 1))) (2 * length ?batch + 2) \<longrightarrow>
        (\<exists>w'. retry_loop ?env 0 ?batch 0 example_world = (Inr (), w') \<and>
           posted w' = posted example_world @
             [(''sig1'', transaction ''hash1'' ?batch), (''sig2'', transaction ''hash2'' ?batch)] \<and>
           fee_distributions w' = fee_distributions example_world @
             map (\<lambda>d. \<lparr>receiver_address = recipient d, transaction_hash = ''sig2'',
                        fd_amount = amount d\<rparr>) ?batch)"
    by (rule conjunct2)
  with 5 7 obtain w' where "retry_loop ?env 0 ?batch 0 example_world = (Inr (), w')"
    "posted w' = posted example_world @
       [(''sig1'', transaction ''hash1'' ?batch), (''sig2'', transaction ''hash2'' ?batch)]"
    by blast
  with 6 show ?thesis by simp
qed




text \<open>
  C5 (as amended). A Rejected outcome is retried like every other failure of an attempt:
  while fewer than three attempts have been made, the loop waits 2000 ms and runs the
  next attempt; after the third failed attempt the error is rethrown. A batch is
  attempted at most three times, and every wait is 2000 ms long. Only a recipient that
  \<^verbatim>\<open>new PublicKey\<close> refuses ends the loop at once: it throws before the \<^verbatim>\<open>try\<close>.
\<close>

theorem C5_failures_are_retried:
  assumes "retryCount < MAX_RETRIES"
  shows "(find (\<lambda>d. \<not> valid_pubkey env (recipient d)) batch = None \<and>
          net (attempts env bi retryCount) = Rejected bh sg \<longrightarrow>
            retry_loop env bi batch retryCount w =
              (if retryCount + 1 < 3
               then retry_loop env bi batch (retryCount + 1)
                      (w\<lparr>trace := trace w @ [Attempt bi retryCount, Sleep 2000]\<rparr>)
               else (Inl TransactionFailed,
                     w\<lparr>trace := trace w @ [Attempt bi retryCount, GaveUp bi]\<rparr>)))
       \<and> (\<forall>e w1. find (\<lambda>d. \<not> valid_pubkey env (recipient d)) batch = None \<and>
                 submit_and_record (attempts env bi retryCount) bi batch
                     (w\<lparr>trace := trace w @ [Attempt bi retryCount]\<rparr>) = (Inl e, w1) \<longrightarrow>
            retry_loop env bi batch retryCount w =
              (if retryCount + 1 < 3
               then retry_loop env bi batch (retryCount + 1)
                      (w1\<lparr>trace := trace w1 @ [Sleep 2000]\<rparr>)
               else (Inl e, w1\<lparr>trace := trace w1 @ [GaveUp bi]\<rparr>)))
       \<and> (\<forall>r w'. retry_loop env bi batch retryCount w = (r, w') \<longrightarrow>
            (\<exists>tr. trace w' = trace w @ tr \<and> attempts_made bi tr \<le> 3 - retryCount \<and>
                  list_all (\<lambda>ev. case ev of Sleep ms \<Rightarrow> ms = 2000 | _ \<Rightarrow> True) tr))
       \<and> (\<forall>d. find (\<lambda>d. \<not> valid_pubkey env (recipient d)) batch = Some d \<longrightarrow>
            retry_loop env bi batch retryCount w =
              (Inl (InvalidPublicKey (recipient d)),
               w\<lparr>trace := trace w @ [Attempt bi retryCount]\<rparr>))"
proof -
  have any: "retry_loop env bi batch retryCount w =
              (if retryCount + 1 < 3
               then retry_loop env bi batch (retryCount + 1)
                      (w1\<lparr>trace := trace w1 @ [Sleep 2000]\<rparr>)
               else (Inl e, w1\<lparr>trace := trace w1 @ [GaveUp bi]\<rparr>))"
    if "find (\<lambda>d. \<not> valid_pubkey env (recipient d)) batch = None"
      and "submit_and_record (attempts env bi retryCount) bi batch
          (w\<lparr>trace := trace w @ [Attempt bi retryCount]\<rparr>) = (Inl e, w1)" for e w1
    using retry_loop_step[OF assms that] by (simp add: MAX_RETRIES_def RETRY_DELAY_def)
  have rej: "retry_loop env bi batch retryCount w =
              (if retryCount + 1 < 3
               then retry_loop env bi batch (retryCount + 1)
                      (w\<lparr>trace := trace w @ [Attempt bi retryCount, Sleep 2000]\<rparr>)
               else (Inl TransactionFailed,
                     w\<lparr>trace := trace w @ [Attempt bi retryCount, GaveUp bi]\<rparr>))"
    if "find (\<lambda>d. \<not> valid_pubkey env (recipient d)) batch = None"
      and "net (attempts env bi retryCount) = Rejected bh sg"
    using any[of TransactionFailed "w\<lparr>trace := trace w @ [Attempt bi retryCount]\<rparr>"] that
    by (simp add: submit_and_record_eq)
  have bound: "\<exists>tr. trace w' = trace w @ tr \<and> attempts_made bi tr \<le> 3 - retryCount \<and>
                  list_all (\<lambda>ev. case ev of Sleep ms \<Rightarrow> ms = 2000 | _ \<Rightarrow> True) tr"
    if "retry_loop env bi batch retryCount w = (r, w')" for r w'
    using retry_loop_trace[OF that assms(1)]
    unfolding MAX_RETRIES_def paced_def RETRY_DELAY_def .
  have bad: "retry_loop env bi batch retryCount w =
              (Inl (InvalidPublicKey (recipient d)),
               w\<lparr>trace := trace w @ [Attempt bi retryCount]\<rparr>)"
    if "find (\<lambda>d. \<not> valid_pubkey env (recipient d)) batch = Some d" for d
    using assms that by (rule retry_loop_invalid)
  from any rej bound bad show ?thesis by blast
qed

text \<open>C5 as stated fails: the batch is rejected, retried after two seconds, and the pass commits.\<close>

theorem C5_counterexample:
  "fst (processTransactions (first_then rejected1 confirmed2) example_world) = Inr ()
   \<and> trace (snd (processTransactions (first_then rejected1 confirmed2) example_world)) =
       [Attempt 0 0, Sleep 2000, Attempt 0 1, BatchSuccessful 0 ''sig2'']
   \<and> transaction_tracker (snd (processTransactions (first_then rejected1 confirmed2) example_world)) =
       [Some 2]"
  by code_simp

theorem C5_witness:
  "retry_loop (first_then rejected1 confirmed2) 0
     [\<lparr>recipient = ''WalletA'', amount = 1 / 50\<rparr>] 0 example_world =
   retry_loop (first_then rejected1 confirmed2) 0
     [\<lparr>recipient = ''WalletA'', amount = 1 / 50\<rparr>] 1
     (example_world\<lparr>trace := trace example_world @ [Attempt 0 0, Sleep 2000]\<rparr>)"
proof -
  let ?env = "first_then rejected1 confirmed2"
  let ?batch = "[\<lparr>recipient = ''WalletA'', amount = 1 / 50\<rparr>]"
  have 1: "0 < MAX_RETRIES" by (simp add: MAX_RETRIES_def)
  have 2: "find (\<lambda>d. \<not> valid_pubkey ?env (recipient d)) ?batch = None"
    by (simp add: first_then_def)
  have 3: "net (attempts ?env 0 0) = Rejected ''hash1'' ''sig1''"
    by (simp add: first_then_def rejected1_def)
  from C5_failures_are_retried[OF 1, of ?env ?batch 0 "''hash1''" "''sig1''" example_world] 2 3
  show ?thesis by simp
qed

text \<open>
  C6. \<open>GaveUp bi\<close> is left in the trace where the loop of batch \<open>bi\<close> rethrows. A
  pass in which this happens has made three attempts for that batch and ends with an
  error, the tracker holds the rows it held before, and the rows that the pass has added
  to \<^verbatim>\<open>fee_distributions\<close> (for earlier batches) name no recipient of batch \<open>bi\<close>.
\<close>

theorem C6_exhausted_retries:
  assumes "processTransactions env w = (r, w')"
    and "GaveUp bi \<in> set (drop (length (trace w)) (trace w'))"
  shows "(\<exists>e. r = Inl e) \<and>
         attempts_made bi (drop (length (trace w)) (trace w')) = 3 \<and>
         transaction_tracker w' = transaction_tracker w \<and>
         bi < length (batches (accumulated_fees w (cursor_param (maxTransactionId w)))) \<and>
         take (length (fee_distributions w)) (fee_distributions w') = fee_distributions w \<and>
         (\<forall>row \<in> set (drop (length (fee_distributions w)) (fee_distributions w')).
            receiver_address row \<notin> recipient `
              set (batches (accumulated_fees w (cursor_param (maxTransactionId w))) ! bi))"
proof -
  let ?rows = "accumulated_fees w (cursor_param (maxTransactionId w))"
  let ?w4 = "w\<lparr>transactions := transactions w @ arrivals env\<rparr>"
  let ?bs = "batches ?rows"
  obtain r5 w5 where s: "sendSolanaTransactions env ?rows ?w4 = (r5, w5)"
    by (cases "sendSolanaTransactions env ?rows ?w4") auto
  have not_quiet: "trace w' \<noteq> trace w"
    using assms(2) by auto
  have ne: "?rows \<noteq> []" and nf: "\<not> failing (outer_fault env) 3"
    using assms(1) not_quiet
    by (auto simp: processTransactions_eq Let_def split: if_splits)
  from ne s have sb: "send_batches env 0 ?bs ?w4 = (r5, w5)"
    by (simp add: sendSolanaTransactions_batches[OF refl])
  from send_batches_outcome[OF sb] obtain new tr where o:
    "transaction_tracker w5 = transaction_tracker w"
    "fee_distributions w5 = fee_distributions w @ new"
    "trace w5 = trace w @ tr"
    "\<forall>j. GaveUp j \<in> set tr \<longrightarrow>
        (\<exists>e. r5 = Inl e) \<and> 0 \<le> j \<and> j < 0 + length ?bs \<and>
        receiver_address ` set new \<subseteq> recipient ` set (concat (take (j - 0) ?bs))"
    by auto
  have w': "trace w' = trace w5 \<and> fee_distributions w' = fee_distributions w5 \<and>
      (r5 = Inl e \<longrightarrow> (\<exists>e'. r = Inl e') \<and> w' = w5)" for e
    using assms(1) ne nf s
    by (cases r5) (auto simp: processTransactions_eq Let_def split: if_splits)
  with assms(2) o(3) have "GaveUp bi \<in> set tr" by simp
  with o(4) obtain e where g: "r5 = Inl e" "bi < length ?bs"
    "receiver_address ` set new \<subseteq> recipient ` set (concat (take bi ?bs))"
    by auto
  from g(1) w' obtain e' where res: "r = Inl e'" "w' = w5" by auto
  have "GaveUp bi \<in> set (drop (length (trace ?w4)) (trace w5))"
    using \<open>GaveUp bi \<in> set tr\<close> o(3) by simp
  from send_batches_three_attempts[OF sb this] o(3) res(2)
  have three: "attempts_made bi (drop (length (trace w)) (trace w')) = 3"
    by (simp add: MAX_RETRIES_def)
  have "distinct (map recipient (concat ?bs))"
    by (simp only: concat_batches accumulated_fees_distinct)
  from batch_recipients_disjoint[OF this g(2)] g(3)
  have "receiver_address ` set new \<inter> recipient ` set (?bs ! bi) = {}"
    by blast
  with res o g three show ?thesis by auto
qed

theorem C6_exhausted_retries_witness:
  "fst (processTransactions (first_then unavailable unavailable) example_world) = Inl BlockhashError
   \<and> transaction_tracker (snd (processTransactions (first_then unavailable unavailable) example_world)) = []
   \<and> fee_distributions (snd (processTransactions (first_then unavailable unavailable) example_world)) = []"
proof -
  obtain r w' where run: "processTransactions (first_then unavailable unavailable) example_world = (r, w')"
    by (cases "processTransactions (first_then unavailable unavailable) example_world") auto
  have "trace (snd (processTransactions (first_then unavailable unavailable) example_world)) =
      [Attempt 0 0, Sleep 2000, Attempt 0 1, Sleep 2000, Attempt 0 2, GaveUp 0]"
    by code_simp
  with run have tr: "trace w' = [Attempt 0 0, Sleep 2000, Attempt 0 1, Sleep 2000, Attempt 0 2, GaveUp 0]"
    by simp
  have "trace example_world = []" "fee_distributions example_world = []"
    "transaction_tracker example_world = []"
    by (simp_all add: example_world_def)
  moreover have "fst (processTransactions (first_then unavailable unavailable) example_world) = Inl BlockhashError"
    by code_simp
  moreover from tr calculation(1)
  have "GaveUp 0 \<in> set (drop (length (trace example_world)) (trace w'))" by simp
  moreover have "fee_distributions (snd (processTransactions (first_then unavailable unavailable) example_world)) = []"
    by code_simp
  ultimately show ?thesis
    using C6_exhausted_retries[OF run] run by simp
qed

text \<open>
  C7 (as amended). For a batch formed by a pass whose transfer is confirmed: either the
  local write succeeds, and then exactly one row per recipient of the batch is added to
  \<^verbatim>\<open>fee_distributions\<close>, every \<^verbatim>\<open>users\<close> row of a recipient has its
  \<^verbatim>\<open>fees_claimed_so_far\<close> raised by exactly that recipient's amount, and all other rows
  of \<^verbatim>\<open>users\<close> are unchanged (a recipient without a row gets the distribution row
  only); or the local write fails and neither table changes.
\<close>

theorem C7_records_and_balances:
  assumes "batch \<in> set (batches (accumulated_fees w0 c))"
    and "net a = Confirmed bh sg"
    and "submit_and_record a bi batch w = (r, w')"
  shows "(r = Inr () \<and>
          fee_distributions w' = fee_distributions w @
            map (\<lambda>d. \<lparr>receiver_address = recipient d, transaction_hash = sg,
                       fd_amount = amount d\<rparr>) batch \<and>
          (\<forall>d \<in> set batch.
             length (filter (\<lambda>row. receiver_address row = recipient d)
               (drop (length (fee_distributions w)) (fee_distributions w'))) = 1) \<and>
          length (users w') = length (users w) \<and>
          (\<forall>i < length (users w).
             (\<forall>d \<in> set batch. wallet_address (users w ! i) = recipient d \<longrightarrow>
                users w' ! i = (users w ! i)\<lparr>fees_claimed_so_far :=
                  fees_claimed_so_far (users w ! i) + amount d\<rparr>) \<and>
             (wallet_address (users w ! i) \<notin> recipient ` set batch \<longrightarrow>
                users w' ! i = users w ! i)))
       \<or> (r = Inl DatabaseError \<and>
           fee_distributions w' = fee_distributions w \<and> users w' = users w)"
proof (cases "failing (db_fault a) (2 * length batch + 2)")
  case True
  with assms(2,3) show ?thesis by (auto simp: submit_and_record_eq)
next
  case False
  note dist = batch_distinct[OF assms(1)]
  from False assms(2,3) have r: "r = Inr ()"
    and fd: "fee_distributions w' = fee_distributions w @ map (distribution_record sg) batch"
    and us: "users w' = map (credited batch) (users w)"
    by (auto simp: submit_and_record_eq)
  have fd': "fee_distributions w' = fee_distributions w @
            map (\<lambda>d. \<lparr>receiver_address = recipient d, transaction_hash = sg,
                       fd_amount = amount d\<rparr>) batch"
    using fd by (simp add: distribution_record_def[abs_def])
  have one: "\<forall>d \<in> set batch.
             length (filter (\<lambda>row. receiver_address row = recipient d)
               (drop (length (fee_distributions w)) (fee_distributions w'))) = 1"
    using one_record_each[OF dist] fd by simp
  have len: "length (users w') = length (users w)" using us by simp
  have bal: "\<forall>i < length (users w).
             (\<forall>d \<in> set batch. wallet_address (users w ! i) = recipient d \<longrightarrow>
                users w' ! i = (users w ! i)\<lparr>fees_claimed_so_far :=
                  fees_claimed_so_far (users w ! i) + amount d\<rparr>) \<and>
             (wallet_address (users w ! i) \<notin> recipient ` set batch \<longrightarrow>
                users w' ! i = users w ! i)"
    using us credited_recipient[OF dist] credited_stranger by simp
  from r fd' one len bal show ?thesis by blast
qed

text \<open>C7 as stated fails for a recipient without a row in \<^verbatim>\<open>users\<close>: the distribution row is written and no balance changes.\<close>

theorem C7_counterexample:
  "fst (processTransactions (first_then confirmed1 confirmed1)
         (example_world\<lparr>users := [\<lparr>wallet_address = ''WalletB'', fees_claimed_so_far = 7\<rparr>]\<rparr>))
     = Inr ()
   \<and> fee_distributions (snd (processTransactions (first_then confirmed1 confirmed1)
         (example_world\<lparr>users := [\<lparr>wallet_address = ''WalletB'', fees_claimed_so_far = 7\<rparr>]\<rparr>)))
     = [\<lparr>receiver_address = ''WalletA'', transaction_hash = ''sig1'', fd_amount = 1 / 50\<rparr>]
   \<and> users (snd (processTransactions (first_then confirmed1 confirmed1)
         (example_world\<lparr>users := [\<lparr>wallet_address = ''WalletB'', fees_claimed_so_far = 7\<rparr>]\<rparr>)))
     = [\<lparr>wallet_address = ''WalletB'', fees_claimed_so_far = 7\<rparr>]"
  by code_simp

theorem C7_witness:
  "fee_distributions (snd (submit_and_record confirmed1 0
      [\<lparr>recipient = ''WalletA'', amount = 1 / 50\<rparr>] example_world)) =
     [\<lparr>receiver_address = ''WalletA'', transaction_hash = ''sig1'', fd_amount = 1 / 50\<rparr>]
   \<and> users (snd (submit_and_record confirmed1 0
      [\<lparr>recipient = ''WalletA'', amount = 1 / 50\<rparr>] example_world)) ! 0 =
     \<lparr>wallet_address = ''WalletA'', fees_claimed_so_far = 1 / 50\<rparr>"
proof -
  let ?batch = "[\<lparr>recipient = ''WalletA'', amount = 1 / 50\<rparr>]"
  have orig: "batches (accumulated_fees example_world 0) = [?batch]"
    by code_simp
  then have 1: "?batch \<in> set (batches (accumulated_fees example_world 0))" by simp
  have 2: "net confirmed1 = Confirmed ''hash1'' ''sig1''" by (simp add: confirmed1_def)
  obtain r w' where 3: "submit_and_record confirmed1 0 ?batch example_world = (r, w')"
    by (cases "submit_and_record confirmed1 0 ?batch example_world") auto
  have "fst (submit_and_record confirmed1 0 ?batch example_world) = Inr ()" by code_simp
  with 3 have ok: "r = Inr ()" by simp
  have w: "users example_world = [\<lparr>wallet_address = ''WalletA'', fees_claimed_so_far = 0\<rparr>]"
    "fee_distributions example_world = []"
    by (simp_all add: example_world_def)
  from C7_records_and_balances[OF 1 2 3] ok w 3 show ?thesis by simp
qed

text \<open>
  C8. For every cursor value, the aggregation keeps exactly one row per recipient that
  owns, through \<^verbatim>\<open>coins\<close>, at least one event with an id above the cursor, whose amount
  is 0.002 times the summed quantity of these events and is at least 0.001; the
  threshold filter of \<^verbatim>\<open>sendSolanaTransactions\<close> keeps all of them; and one event of
  quantity 10 gives its recipient the amount 0.02.
\<close>

theorem C8_aggregation:
  "set (accumulated_fees w c) =
     {d. (\<exists>t \<in> set (transactions w). \<exists>k \<in> set (coins w).
            coin_id t = mint_address k \<and> c < tx_id t \<and> creator_wallet_address k = recipient d) \<and>
         amount d = (2 / 1000) * sum_list [sol_quantity t. t \<leftarrow> transactions w, k \<leftarrow> coins w,
            coin_id t = mint_address k, c < tx_id t, creator_wallet_address k = recipient d] \<and>
         1 / 1000 \<le> amount d}
   \<and> distinct (map recipient (accumulated_fees w c))
   \<and> filter (\<lambda>d. MIN_AMOUNT_THRESHOLD \<le> amount d) (accumulated_fees w c) = accumulated_fees w c
   \<and> accumulated_fees
        (w\<lparr>transactions := [\<lparr>tx_id = 1, coin_id = m, sol_quantity = 10\<rparr>],
           coins := [\<lparr>mint_address = m, creator_wallet_address = W\<rparr>]\<rparr>) (cursor_param None)
       = [\<lparr>recipient = W, amount = 2 / 100\<rparr>]"
proof -
  have "set (accumulated_fees w c) = {d. (\<exists>t \<in> set (transactions w). \<exists>k \<in> set (coins w).
            coin_id t = mint_address k \<and> c < tx_id t \<and> creator_wallet_address k = recipient d) \<and>
         amount d = (2 / 1000) * sum_list [sol_quantity t. t \<leftarrow> transactions w, k \<leftarrow> coins w,
            coin_id t = mint_address k, c < tx_id t, creator_wallet_address k = recipient d] \<and>
         1 / 1000 \<le> amount d}"
    unfolding accumulated_fees_set recipients_joined total_sol_eq joined_for_recipient
    by (simp add: FEE_RATE_def HAVING_THRESHOLD_def)
  moreover have "accumulated_fees
        (w\<lparr>transactions := [\<lparr>tx_id = 1, coin_id = m, sol_quantity = 10\<rparr>],
           coins := [\<lparr>mint_address = m, creator_wallet_address = W\<rparr>]\<rparr>) (cursor_param None)
       = [\<lparr>recipient = W, amount = 2 / 100\<rparr>]"
    by (simp add: accumulated_fees_def joined_def total_sol_def cursor_param_def FEE_RATE_def
        HAVING_THRESHOLD_def)
  ultimately show ?thesis
    by (simp only: accumulated_fees_distinct js_filter_id simp_thms)
qed

text \<open>
  C9 (as amended). \<^verbatim>\<open>handleCron\<close> has no single-flight guard: whenever its reads
  succeed, a timer fire starts a pass with the rows aggregated from the database as it is
  at that moment, whatever passes are in flight; no trigger is skipped or queued. Two
  fires in a row leave two passes in flight that hold the same rows.
\<close>

theorem C9_every_trigger_starts_a_pass:
  assumes "\<not> failing (outer_fault env) 3"
  shows "(\<exists>c. handleCron env rt =
           rt\<lparr>in_flight := in_flight rt @
                [(env, accumulated_fees (db rt) (cursor_param (maxTransactionId (db rt))), c)]\<rparr>)
       \<and> (\<not> failing (outer_fault env') 3 \<longrightarrow>
            (\<exists>c c'. handleCron env' (handleCron env rt) =
               rt\<lparr>in_flight := in_flight rt @
                 [(env, accumulated_fees (db rt) (cursor_param (maxTransactionId (db rt))), c),
                  (env', accumulated_fees (db rt) (cursor_param (maxTransactionId (db rt))), c')]\<rparr>))"
proof -
  have one: "\<exists>c. handleCron e s =
           s\<lparr>in_flight := in_flight s @
                [(e, accumulated_fees (db s) (cursor_param (maxTransactionId (db s))), c)]\<rparr>"
    if ok: "\<not> failing (outer_fault e) 3" for e s
  proof -
    from ok obtain c where c: "connect (outer_fault e) = Inr c"
      "c = \<lparr>fault = map_option (\<lambda>n. n - 1) (outer_fault e), staged = None\<rparr>"
      by (cases "outer_fault e") (auto simp: connect_def failing_def)
    have "\<not> failing (map_option (\<lambda>n. n - 1) (outer_fault e)) 2"
      using ok by (cases "outer_fault e") (auto simp: failing_def)
    with c have "handleCron e s =
           s\<lparr>in_flight := in_flight s @
                [(e, accumulated_fees (db s) (cursor_param (maxTransactionId (db s))),
                  \<lparr>fault = map_option (\<lambda>n. n - 3) (map_option (\<lambda>n. n - 1) (outer_fault e)),
                   staged = Some []\<rparr>)]\<rparr>"
      by (simp add: handleCron_def pass_reads_eq)
    then show ?thesis by (rule exI)
  qed
  from one[OF assms, of rt] obtain c where first: "handleCron env rt =
           rt\<lparr>in_flight := in_flight rt @
                [(env, accumulated_fees (db rt) (cursor_param (maxTransactionId (db rt))), c)]\<rparr>"
    by blast
  have two: "\<exists>c c'. handleCron env' (handleCron env rt) =
               rt\<lparr>in_flight := in_flight rt @
                 [(env, accumulated_fees (db rt) (cursor_param (maxTransactionId (db rt))), c),
                  (env', accumulated_fees (db rt) (cursor_param (maxTransactionId (db rt))), c')]\<rparr>"
    if "\<not> failing (outer_fault env') 3"
  proof -
    from one[OF that, of "handleCron env rt"] obtain c' where
      "handleCron env' (handleCron env rt) =
         (handleCron env rt)\<lparr>in_flight := in_flight (handleCron env rt) @
            [(env', accumulated_fees (db (handleCron env rt))
                      (cursor_param (maxTransactionId (db (handleCron env rt)))), c')]\<rparr>"
      by blast
    then have "handleCron env' (handleCron env rt) =
               rt\<lparr>in_flight := in_flight rt @
                 [(env, accumulated_fees (db rt) (cursor_param (maxTransactionId (db rt))), c),
                  (env', accumulated_fees (db rt) (cursor_param (maxTransactionId (db rt))), c')]\<rparr>"
      unfolding first by simp
    then show ?thesis by blast
  qed
  from first two show ?thesis by blast
qed

text \<open>C9 as stated fails: two fires leave two passes in flight, and both pay the same event.\<close>

theorem C9_counterexample:
  "length (in_flight (run [TimerFires (first_then confirmed1 confirmed1),
                           TimerFires (first_then confirmed2 confirmed2)]
                        \<lparr>db = example_world, in_flight = []\<rparr>)) = 2
   \<and> fee_distributions (db (run [TimerFires (first_then confirmed1 confirmed1),
                                 TimerFires (first_then confirmed2 confirmed2),
                                 PassResumes 0, PassResumes 0]
                        \<lparr>db = example_world, in_flight = []\<rparr>)) =
       [\<lparr>receiver_address = ''WalletA'', transaction_hash = ''sig1'', fd_amount = 1 / 50\<rparr>,
        \<lparr>receiver_address = ''WalletA'', transaction_hash = ''sig2'', fd_amount = 1 / 50\<rparr>]"
  by code_simp

theorem C9_witness:
  "length (in_flight (handleCron (first_then confirmed2 confirmed2)
     (handleCron (first_then confirmed1 confirmed1) \<lparr>db = example_world, in_flight = []\<rparr>))) = 2"
proof -
  have 1: "\<not> failing (outer_fault (first_then confirmed1 confirmed1)) 3"
    and 2: "\<not> failing (outer_fault (first_then confirmed2 confirmed2)) 3"
    by (simp_all add: first_then_def failing_def)
  from C9_every_trigger_starts_a_pass[OF 1, of "\<lparr>db = example_world, in_flight = []\<rparr>"
      "first_then confirmed2 confirmed2"] 2
  obtain c c' where "handleCron (first_then confirmed2 confirmed2)
      (handleCron (first_then confirmed1 confirmed1) \<lparr>db = example_world, in_flight = []\<rparr>) =
      \<lparr>db = example_world, in_flight = [] @
        [(first_then confirmed1 confirmed1,
          accumulated_fees example_world (cursor_param (maxTransactionId example_world)), c),
         (first_then confirmed2 confirmed2,
          accumulated_fees example_world (cursor_param (maxTransactionId example_world)), c')]\<rparr>"
    by auto
  then show ?thesis by simp
qed



end
